theory Spec2Isabelle
  imports Complex_Main "HOL-Library.Sublist"
begin

section \<open>Strings and the string methods the allocator uses\<close>

text \<open>
  A JavaScript string is modelled as a \<^typ>\<open>string\<close>: one \<^typ>\<open>char\<close> per code unit.
  The methods below (\<^verbatim>\<open>lastIndexOf\<close>, \<^verbatim>\<open>slice\<close>, \<^verbatim>\<open>concat\<close>, template
  literals) treat code units uniformly, so nothing depends on the width of a unit.
  \<^verbatim>\<open>s.concat(t)\<close> and the template literal \<^verbatim>\<open>`${s}${t}`\<close> are list append.
\<close>

text \<open>\<^verbatim>\<open>s.lastIndexOf(c)\<close> for a one-unit search string: the greatest index holding
  \<open>c\<close>, or \<open>-1\<close>.\<close>

fun lastIndexOf_from :: "nat \<Rightarrow> char \<Rightarrow> string \<Rightarrow> int \<Rightarrow> int" where
  "lastIndexOf_from i c [] found = found"
| "lastIndexOf_from i c (x # xs) found =
     lastIndexOf_from (Suc i) c xs (if x = c then int i else found)"

definition lastIndexOf :: "string \<Rightarrow> char \<Rightarrow> int" where
  "lastIndexOf s c = lastIndexOf_from 0 c s (- 1)"

text \<open>\<^verbatim>\<open>s.slice(start, end)\<close> and \<^verbatim>\<open>s.slice(start)\<close>, with JavaScript's clamping of
  negative and oversized indices.\<close>

definition slice :: "string \<Rightarrow> int \<Rightarrow> int \<Rightarrow> string" where
  "slice s start end =
     (let len = int (length s);
          from = (if start < 0 then max (len + start) 0 else min start len);
          to = (if end < 0 then max (len + end) 0 else min end len)
      in take (nat (to - from)) (drop (nat from) s))"

definition slice_from :: "string \<Rightarrow> int \<Rightarrow> string" where
  "slice_from s start = slice s start (int (length s))"

text \<open>
  \<^verbatim>\<open>n.toFixed()\<close> on a counter. The counters are non-negative integers that start at
  0 or 1 and grow by one, modelled as \<^typ>\<open>nat\<close>; \<^verbatim>\<open>toFixed()\<close> with no argument
  prints such a number in decimal with no fraction digits. (A JavaScript number is a
  double: the model is exact for counters below 2 to the power 53.)
\<close>

definition digit_char :: "nat \<Rightarrow> char" where
  "digit_char d = char_of (48 + d)"

fun toFixed :: "nat \<Rightarrow> string" where
  "toFixed n = (if n < 10 then [digit_char n] else toFixed (n div 10) @ [digit_char (n mod 10)])"

declare toFixed.simps [simp del]

lemma digit_char_inj: "a < 10 \<Longrightarrow> b < 10 \<Longrightarrow> digit_char a = digit_char b \<Longrightarrow> a = b"
proof -
  assume a: "a < 10" and b: "b < 10" and e: "digit_char a = digit_char b"
  from e have "(of_char (char_of (48 + a)) :: nat) = of_char (char_of (48 + b))"
    unfolding digit_char_def by simp
  with a b show "a = b" by simp
qed

lemma toFixed_nonempty: "toFixed n \<noteq> []"
  by (subst toFixed.simps) simp

lemma toFixed_inj: "toFixed a = toFixed b \<Longrightarrow> a = b"
proof (induction a arbitrary: b rule: toFixed.induct)
  case (1 n)
  show ?case
  proof (cases "n < 10")
    case True
    then have "toFixed n = [digit_char n]" by (subst toFixed.simps) simp
    with "1.prems" have eq: "toFixed b = [digit_char n]" by simp
    have "b < 10"
    proof (rule ccontr)
      assume "\<not> b < 10"
      then have "toFixed b = toFixed (b div 10) @ [digit_char (b mod 10)]"
        by (subst toFixed.simps) simp
      with eq toFixed_nonempty [of "b div 10"] show False by (cases "toFixed (b div 10)") auto
    qed
    then have "toFixed b = [digit_char b]" by (subst toFixed.simps) simp
    with eq True \<open>b < 10\<close> show ?thesis using digit_char_inj by auto
  next
    case False
    then have n: "toFixed n = toFixed (n div 10) @ [digit_char (n mod 10)]"
      by (subst toFixed.simps) simp
    have "\<not> b < 10"
    proof
      assume "b < 10"
      then have "toFixed b = [digit_char b]" by (subst toFixed.simps) simp
      with n "1.prems" toFixed_nonempty [of "n div 10"] show False
        by (cases "toFixed (n div 10)") auto
    qed
    then have b: "toFixed b = toFixed (b div 10) @ [digit_char (b mod 10)]"
      by (subst toFixed.simps) simp
    from n b "1.prems" have e1: "toFixed (n div 10) = toFixed (b div 10)"
      and e2: "digit_char (n mod 10) = digit_char (b mod 10)" by auto
    from "1.IH" [OF False e1] have "n div 10 = b div 10" .
    moreover from e2 have "n mod 10 = b mod 10" using digit_char_inj by auto
    ultimately show ?thesis by (metis div_mult_mod_eq)
  qed
qed

lemma lastIndexOf_from_absent:
  "c \<notin> set s \<Longrightarrow> lastIndexOf_from i c s found = found"
  by (induction s arbitrary: i found) auto

lemma lastIndexOf_from_present:
  "c \<in> set s \<Longrightarrow>
     \<exists>k<length s. lastIndexOf_from i c s found = int (i + k) \<and> s ! k = c
        \<and> c \<notin> set (drop (Suc k) s)"
proof (induction s arbitrary: i found)
  case Nil
  then show ?case by simp
next
  case (Cons x xs)
  show ?case
  proof (cases "c \<in> set xs")
    case True
    from Cons.IH [OF True, of "Suc i" "if x = c then int i else found"]
    obtain k where "k < length xs"
      and "lastIndexOf_from (Suc i) c xs (if x = c then int i else found) = int (Suc i + k)"
      and "xs ! k = c" and "c \<notin> set (drop (Suc k) xs)" by blast
    then show ?thesis by (intro exI [of _ "Suc k"]) simp
  next
    case False
    with Cons.prems have "x = c" by simp
    with False show ?thesis
      by (intro exI [of _ 0]) (simp add: lastIndexOf_from_absent)
  qed
qed

lemma lastIndexOf_absent: "c \<notin> set s \<Longrightarrow> lastIndexOf s c = - 1"
  by (simp add: lastIndexOf_def lastIndexOf_from_absent)

lemma lastIndexOf_present:
  "c \<in> set s \<Longrightarrow>
     \<exists>k<length s. lastIndexOf s c = int k \<and> s ! k = c \<and> c \<notin> set (drop (Suc k) s)"
  using lastIndexOf_from_present [of c s 0 "- 1"] by (simp add: lastIndexOf_def)

lemma slice_prefix: "k \<le> length s \<Longrightarrow> slice s 0 (int k) = take k s"
  by (simp add: slice_def Let_def min_def)

lemma slice_from_suffix: "k \<le> length s \<Longrightarrow> slice_from s (int k) = drop k s"
  by (simp add: slice_from_def slice_def Let_def min_def)

section \<open>UniqueFileName: the name allocator\<close>

text \<open>
  The class has two private fields: the set \<^verbatim>\<open>usedNames\<close> and the map
  \<^verbatim>\<open>fileNameToPreId\<close>. A JavaScript \<^verbatim>\<open>Set\<close> is finite and keeps insertion order:
  it is a list here, \<^verbatim>\<open>has\<close> is membership and \<^verbatim>\<open>add\<close> appends a name that is
  not yet a member. The methods take the instance and return it updated.
\<close>

record UniqueFileName =
  usedNames :: "string list"
  fileNameToPreId :: "string \<rightharpoonup> nat"

definition new_UniqueFileName :: UniqueFileName where
  "new_UniqueFileName = \<lparr>usedNames = [], fileNameToPreId = Map.empty\<rparr>"

definition set_add :: "string list \<Rightarrow> string \<Rightarrow> string list" where
  "set_add used x = (if x \<in> set used then used else used @ [x])"

text \<open>The candidate that the loop body of \<^verbatim>\<open>generate\<close> builds from \<^verbatim>\<open>originFileName\<close>
  and the new \<^verbatim>\<open>id\<close>.\<close>

definition numberedName :: "string \<Rightarrow> nat \<Rightarrow> string" where
  "numberedName originFileName id' =
     (let startDotIndex = lastIndexOf originFileName (CHR ''.'')
      in if startDotIndex = - 1
         then originFileName @ (''-'' @ toFixed id')
         else slice originFileName 0 startDotIndex @ (''-'' @ toFixed id')
                @ slice_from originFileName startDotIndex)"

text \<open>\<^verbatim>\<open>this.fileNameToPreId.get(originFileName) ?? 0\<close>\<close>

definition preIdOf :: "(string \<rightharpoonup> nat) \<Rightarrow> string \<Rightarrow> nat" where
  "preIdOf ids originFileName = (case ids originFileName of None \<Rightarrow> 0 | Some p \<Rightarrow> p)"

lemma numberedName_inj: "numberedName f a = numberedName f b \<Longrightarrow> a = b"
  by (auto simp: numberedName_def Let_def dest: toFixed_inj split: if_splits)

lemma finite_numbered: "finite {k. P k \<and> numberedName f k \<in> set used}"
proof -
  have "inj (numberedName f)" by (rule injI) (rule numberedName_inj)
  then have "finite (numberedName f -` set used)" by (intro finite_vimageI) simp_all
  then show ?thesis by (rule rev_finite_subset) auto
qed

text \<open>
  The \<^verbatim>\<open>while\<close> loop of \<^verbatim>\<open>generate\<close>: its state is \<^verbatim>\<open>newFileName\<close> and the map. It
  ends because the candidates for growing ids are pairwise different and the set of
  used names is finite.
\<close>

function generate_loop ::
  "string list \<Rightarrow> (string \<rightharpoonup> nat) \<Rightarrow> string \<Rightarrow> string \<Rightarrow> string \<times> (string \<rightharpoonup> nat)" where
  "generate_loop used ids originFileName newFileName =
     (if newFileName \<in> set used then
        let preId = preIdOf ids originFileName;
            id' = preId + 1
        in generate_loop used (ids(originFileName \<mapsto> id')) originFileName
             (numberedName originFileName id')
      else (newFileName, ids))"
  by pat_completeness auto
termination
proof (relation "measure (\<lambda>(used, ids, f, new).
         if new \<in> set used
         then Suc (card {k. preIdOf ids f < k \<and> numberedName f k \<in> set used}) else 0)")
  show "wf (measure (\<lambda>(used, ids, f, new).
         if new \<in> set used
         then Suc (card {k. preIdOf ids f < k \<and> numberedName f k \<in> set used}) else 0))"
    by simp
next
  fix used :: "string list" and ids :: "string \<rightharpoonup> nat" and f new :: string and p i :: nat
  assume mem: "new \<in> set used" and p: "p = preIdOf ids f" and i: "i = p + 1"
  let ?A = "{k. preIdOf ids f < k \<and> numberedName f k \<in> set used}"
  let ?B = "{k. preIdOf (ids(f \<mapsto> i)) f < k \<and> numberedName f k \<in> set used}"
  have pre: "preIdOf (ids(f \<mapsto> i)) f = i" by (simp add: preIdOf_def)
  have "numberedName f i \<in> set used \<Longrightarrow> card ?B < card ?A"
  proof -
    assume h: "numberedName f i \<in> set used"
    have "i \<in> ?A" and "i \<notin> ?B" and "?B \<subseteq> ?A" using h p i pre by auto
    then have "?B \<subset> ?A" by blast
    then show ?thesis by (intro psubset_card_mono finite_numbered)
  qed
  with mem show "((used, ids(f \<mapsto> i), f, numberedName f i), (used, ids, f, new))
      \<in> measure (\<lambda>(used, ids, f, new).
         if new \<in> set used
         then Suc (card {k. preIdOf ids f < k \<and> numberedName f k \<in> set used}) else 0)"
    by simp
qed

declare generate_loop.simps [simp del]

definition generate :: "UniqueFileName \<Rightarrow> string \<Rightarrow> string \<times> UniqueFileName" where
  "generate this originFileName =
     (let (newFileName, ids) =
            generate_loop (usedNames this) (fileNameToPreId this) originFileName originFileName
      in (newFileName,
          \<lparr>usedNames = set_add (usedNames this) newFileName, fileNameToPreId = ids\<rparr>))"

text \<open>
  \<^verbatim>\<open>generateWithUUID\<close>. The token that \<^verbatim>\<open>uuidv4()\<close> draws is an argument of the model,
  so every statement below holds for whatever token the generator returns, a repeated
  one included.
\<close>

definition uuidName :: "string \<Rightarrow> string \<Rightarrow> nat \<Rightarrow> string" where
  "uuidName uuid extension counter = uuid @ ''-'' @ toFixed counter @ extension"

lemma uuidName_inj: "uuidName u e a = uuidName u e b \<Longrightarrow> a = b"
  by (auto simp: uuidName_def dest: toFixed_inj)

lemma finite_uuidName: "finite {k. P k \<and> uuidName u e k \<in> set used}"
proof -
  have "inj (uuidName u e)" by (rule injI) (rule uuidName_inj)
  then have "finite (uuidName u e -` set used)" by (intro finite_vimageI) simp_all
  then show ?thesis by (rule rev_finite_subset) auto
qed

function uuid_loop :: "string list \<Rightarrow> string \<Rightarrow> string \<Rightarrow> string \<Rightarrow> nat \<Rightarrow> string" where
  "uuid_loop used uuid extension finalFileName counter =
     (if finalFileName \<in> set used
      then uuid_loop used uuid extension (uuidName uuid extension counter) (counter + 1)
      else finalFileName)"
  by pat_completeness auto
termination
proof (relation "measure (\<lambda>(used, u, e, final, c).
         if final \<in> set used
         then Suc (card {k. c \<le> k \<and> uuidName u e k \<in> set used}) else 0)")
  show "wf (measure (\<lambda>(used, u, e, final, c).
         if final \<in> set used
         then Suc (card {k. c \<le> k \<and> uuidName u e k \<in> set used}) else 0))"
    by simp
next
  fix used :: "string list" and u e final :: string and c :: nat
  assume mem: "final \<in> set used"
  let ?A = "{k. c \<le> k \<and> uuidName u e k \<in> set used}"
  let ?B = "{k. c + 1 \<le> k \<and> uuidName u e k \<in> set used}"
  have "uuidName u e c \<in> set used \<Longrightarrow> card ?B < card ?A"
  proof -
    assume h: "uuidName u e c \<in> set used"
    have "c \<in> ?A" and "c \<notin> ?B" and "?B \<subseteq> ?A" using h by auto
    then have "?B \<subset> ?A" by blast
    then show ?thesis by (intro psubset_card_mono finite_uuidName)
  qed
  with mem show "((used, u, e, uuidName u e c, c + 1), (used, u, e, final, c))
      \<in> measure (\<lambda>(used, u, e, final, c).
         if final \<in> set used
         then Suc (card {k. c \<le> k \<and> uuidName u e k \<in> set used}) else 0)"
    by simp
qed

declare uuid_loop.simps [simp del]

definition generateWithUUID ::
  "UniqueFileName \<Rightarrow> string \<Rightarrow> string \<Rightarrow> string \<times> UniqueFileName" where
  "generateWithUUID this uuid originFileName =
     (let startDotIndex = lastIndexOf originFileName (CHR ''.'');
          extension = (if startDotIndex = - 1 then [] else slice_from originFileName startDotIndex);
          newFileName = uuid @ extension;
          finalFileName = uuid_loop (usedNames this) uuid extension newFileName 1
      in (finalFileName, this\<lparr>usedNames := set_add (usedNames this) finalFileName\<rparr>))"

text \<open>A sequence of calls on one instance, in any interleaving, and the names it returns.\<close>

datatype call = Generate string | GenerateWithUUID string string

fun apply_call :: "UniqueFileName \<Rightarrow> call \<Rightarrow> string \<times> UniqueFileName" where
  "apply_call this (Generate originFileName) = generate this originFileName"
| "apply_call this (GenerateWithUUID uuid originFileName) =
     generateWithUUID this uuid originFileName"

fun run_calls :: "UniqueFileName \<Rightarrow> call list \<Rightarrow> string list \<times> UniqueFileName" where
  "run_calls this [] = ([], this)"
| "run_calls this (c # cs) =
     (let (name, this') = apply_call this c;
          (names, this'') = run_calls this' cs
      in (name # names, this''))"

text \<open>
  What the specification means by the stem and the extension of a name: the name is the
  stem followed by the extension; the extension starts at the last dot of the name, and
  is empty when the name has no dot.
\<close>

definition splitsAtLastDot :: "string \<Rightarrow> string \<Rightarrow> string \<Rightarrow> bool" where
  "splitsAtLastDot name stem ext \<longleftrightarrow>
     name = stem @ ext \<and>
     (if CHR ''.'' \<in> set name
      then ext \<noteq> [] \<and> hd ext = CHR ''.'' \<and> CHR ''.'' \<notin> set (tl ext)
      else ext = [])"

section \<open>Properties of the allocator\<close>

lemma splitsAtLastDot_ex:
  "\<exists>stem ext. splitsAtLastDot f stem ext
      \<and> (\<forall>n. numberedName f n = stem @ ''-'' @ toFixed n @ ext)
      \<and> (if lastIndexOf f (CHR ''.'') = - 1 then [] else slice_from f (lastIndexOf f (CHR ''.''))) = ext"
proof (cases "CHR ''.'' \<in> set f")
  case False
  have "splitsAtLastDot f f []"
    using False by (simp add: splitsAtLastDot_def)
  moreover have "\<forall>n. numberedName f n = f @ ''-'' @ toFixed n @ []"
    using False by (simp add: numberedName_def lastIndexOf_absent)
  moreover have "(if lastIndexOf f (CHR ''.'') = - 1 then []
                  else slice_from f (lastIndexOf f (CHR ''.''))) = []"
    using False by (simp add: lastIndexOf_absent)
  ultimately show ?thesis by blast
next
  case True
  from lastIndexOf_present [OF True] obtain k where k: "k < length f"
    and idx: "lastIndexOf f (CHR ''.'') = int k" and at: "f ! k = CHR ''.''"
    and rest: "CHR ''.'' \<notin> set (drop (Suc k) f)" by blast
  have d: "drop k f = CHR ''.'' # drop (Suc k) f"
    using k at by (simp add: Cons_nth_drop_Suc [symmetric])
  have "f = take k f @ drop k f" by simp
  then have "splitsAtLastDot f (take k f) (drop k f)"
    unfolding splitsAtLastDot_def using True rest d by simp
  moreover have "\<forall>n. numberedName f n = take k f @ ''-'' @ toFixed n @ drop k f"
    using k idx by (simp add: numberedName_def slice_prefix slice_from_suffix)
  moreover have "(if lastIndexOf f (CHR ''.'') = - 1 then []
                  else slice_from f (lastIndexOf f (CHR ''.''))) = drop k f"
    using k idx by (simp add: slice_from_suffix)
  ultimately show ?thesis by blast
qed

lemma takeWhile_until: "c \<notin> set xs \<Longrightarrow> takeWhile (\<lambda>x. x \<noteq> c) (xs @ c # ys) = xs"
  by (induction xs) auto

lemma splitsAtLastDot_unique:
  "splitsAtLastDot f s1 e1 \<Longrightarrow> splitsAtLastDot f s2 e2 \<Longrightarrow> s1 = s2 \<and> e1 = e2"
proof (cases "CHR ''.'' \<in> set f")
  case False
  assume "splitsAtLastDot f s1 e1" and "splitsAtLastDot f s2 e2"
  with False show ?thesis by (simp add: splitsAtLastDot_def)
next
  case True
  assume a: "splitsAtLastDot f s1 e1" and b: "splitsAtLastDot f s2 e2"
  from a True obtain r1 where e1: "e1 = CHR ''.'' # r1" and r1: "CHR ''.'' \<notin> set r1"
    and f1: "f = s1 @ e1" by (cases e1) (auto simp: splitsAtLastDot_def)
  from b True obtain r2 where e2: "e2 = CHR ''.'' # r2" and r2: "CHR ''.'' \<notin> set r2"
    and f2: "f = s2 @ e2" by (cases e2) (auto simp: splitsAtLastDot_def)
  have "rev f = rev r1 @ CHR ''.'' # rev s1" using f1 e1 by simp
  moreover have "rev f = rev r2 @ CHR ''.'' # rev s2" using f2 e2 by simp
  ultimately have eq: "rev r1 @ CHR ''.'' # rev s1 = rev r2 @ CHR ''.'' # rev s2" by simp
  have "takeWhile (\<lambda>c. c \<noteq> CHR ''.'') (rev r1 @ CHR ''.'' # rev s1) = rev r1"
    using r1 by (simp add: takeWhile_until)
  moreover have "takeWhile (\<lambda>c. c \<noteq> CHR ''.'') (rev r2 @ CHR ''.'' # rev s2) = rev r2"
    using r2 by (simp add: takeWhile_until)
  ultimately have "r1 = r2" using eq by simp
  with eq e1 e2 show ?thesis by simp
qed

lemma generate_loop_unused:
  "new \<notin> set used \<Longrightarrow> generate_loop used ids f new = (new, ids)"
  by (subst generate_loop.simps) simp

lemma generate_loop_step:
  "new \<in> set used \<Longrightarrow>
     generate_loop used ids f new =
       generate_loop used (ids(f \<mapsto> preIdOf ids f + 1)) f (numberedName f (preIdOf ids f + 1))"
  by (subst generate_loop.simps) (simp add: Let_def)

lemma preIdOf_upd: "preIdOf (ids(f \<mapsto> n)) f = n"
  by (simp add: preIdOf_def)

lemma generate_loop_used:
  "new \<in> set used \<Longrightarrow>
     \<exists>n. preIdOf ids f < n
       \<and> generate_loop used ids f new = (numberedName f n, ids(f \<mapsto> n))
       \<and> numberedName f n \<notin> set used
       \<and> (\<forall>k. preIdOf ids f < k \<and> k < n \<longrightarrow> numberedName f k \<in> set used)"
proof (induction used ids f new rule: generate_loop.induct)
  case (1 used ids f new)
  let ?p = "preIdOf ids f"
  let ?i = "?p + 1"
  let ?ids = "ids(f \<mapsto> ?i)"
  have step: "generate_loop used ids f new = generate_loop used ?ids f (numberedName f ?i)"
    using "1.prems" by (rule generate_loop_step)
  show ?case
  proof (cases "numberedName f ?i \<in> set used")
    case False
    then have "generate_loop used ids f new = (numberedName f ?i, ?ids)"
      using step by (simp add: generate_loop_unused)
    with False show ?thesis by (intro exI [of _ ?i]) auto
  next
    case True
    have "\<exists>n. ?i < n
       \<and> generate_loop used ?ids f (numberedName f ?i) = (numberedName f n, ids(f \<mapsto> n))
       \<and> numberedName f n \<notin> set used
       \<and> (\<forall>k. ?i < k \<and> k < n \<longrightarrow> numberedName f k \<in> set used)"
      using "1.IH" [OF "1.prems" refl refl True] by (simp only: preIdOf_upd fun_upd_upd)
    then obtain n where n: "?i < n"
      and r: "generate_loop used ?ids f (numberedName f ?i) = (numberedName f n, ids(f \<mapsto> n))"
      and fresh: "numberedName f n \<notin> set used"
      and below: "\<forall>k. ?i < k \<and> k < n \<longrightarrow> numberedName f k \<in> set used"
      by blast
    have "\<forall>k. ?p < k \<and> k < n \<longrightarrow> numberedName f k \<in> set used"
    proof (intro allI impI)
      fix k assume "?p < k \<and> k < n"
      then have "k = ?i \<or> (?i < k \<and> k < n)" by auto
      with True below show "numberedName f k \<in> set used" by auto
    qed
    with n r fresh step show ?thesis by (intro exI [of _ n]) auto
  qed
qed

lemma generate_loop_fresh: "fst (generate_loop used ids f new) \<notin> set used"
proof (cases "new \<in> set used")
  case True
  from generate_loop_used [OF True, of ids f] show ?thesis by auto
next
  case False
  then show ?thesis by (simp add: generate_loop_unused)
qed

lemma uuid_loop_unused: "final \<notin> set used \<Longrightarrow> uuid_loop used u e final c = final"
  by (subst uuid_loop.simps) simp

lemma uuid_loop_step:
  "final \<in> set used \<Longrightarrow>
     uuid_loop used u e final c = uuid_loop used u e (uuidName u e c) (c + 1)"
  by (subst uuid_loop.simps) simp

lemma uuid_loop_used:
  "final \<in> set used \<Longrightarrow>
     \<exists>n. c \<le> n \<and> uuid_loop used u e final c = uuidName u e n
       \<and> uuidName u e n \<notin> set used
       \<and> (\<forall>k. c \<le> k \<and> k < n \<longrightarrow> uuidName u e k \<in> set used)"
proof (induction used u e final c rule: uuid_loop.induct)
  case (1 used u e final c)
  have step: "uuid_loop used u e final c = uuid_loop used u e (uuidName u e c) (c + 1)"
    using "1.prems" by (rule uuid_loop_step)
  show ?case
  proof (cases "uuidName u e c \<in> set used")
    case False
    then have "uuid_loop used u e final c = uuidName u e c"
      using step by (simp add: uuid_loop_unused)
    with False show ?thesis by (intro exI [of _ c]) auto
  next
    case True
    from "1.IH" [OF "1.prems" True]
    obtain n where n: "c + 1 \<le> n"
      and r: "uuid_loop used u e (uuidName u e c) (c + 1) = uuidName u e n"
      and fresh: "uuidName u e n \<notin> set used"
      and below: "\<forall>k. c + 1 \<le> k \<and> k < n \<longrightarrow> uuidName u e k \<in> set used"
      by auto
    have "\<forall>k. c \<le> k \<and> k < n \<longrightarrow> uuidName u e k \<in> set used"
    proof (intro allI impI)
      fix k assume "c \<le> k \<and> k < n"
      then have "k = c \<or> (c + 1 \<le> k \<and> k < n)" by auto
      with True below show "uuidName u e k \<in> set used" by auto
    qed
    with n r fresh step show ?thesis by (intro exI [of _ n]) auto
  qed
qed

lemma uuid_loop_fresh: "uuid_loop used u e final c \<notin> set used"
proof (cases "final \<in> set used")
  case True
  from uuid_loop_used [OF True, of c u e] show ?thesis by auto
next
  case False
  then show ?thesis by (simp add: uuid_loop_unused)
qed

lemma generate_fresh: "fst (generate this f) \<notin> set (usedNames this)"
  using generate_loop_fresh [of "usedNames this" "fileNameToPreId this" f f]
  by (cases "generate_loop (usedNames this) (fileNameToPreId this) f f")
     (simp add: generate_def)

lemma generate_used:
  "usedNames (snd (generate this f)) = usedNames this @ [fst (generate this f)]"
  using generate_loop_fresh [of "usedNames this" "fileNameToPreId this" f f]
  by (cases "generate_loop (usedNames this) (fileNameToPreId this) f f")
     (simp add: generate_def set_add_def)

lemma generateWithUUID_fresh: "fst (generateWithUUID this u f) \<notin> set (usedNames this)"
  by (simp add: generateWithUUID_def Let_def uuid_loop_fresh)

lemma generateWithUUID_used:
  "usedNames (snd (generateWithUUID this u f)) =
     usedNames this @ [fst (generateWithUUID this u f)]"
  by (simp add: generateWithUUID_def Let_def set_add_def uuid_loop_fresh)

lemma apply_call_fresh: "fst (apply_call this c) \<notin> set (usedNames this)"
  by (cases c) (simp_all add: generate_fresh generateWithUUID_fresh)

lemma apply_call_used:
  "usedNames (snd (apply_call this c)) = usedNames this @ [fst (apply_call this c)]"
  by (cases c) (simp_all add: generate_used generateWithUUID_used)

lemma run_calls_used:
  "usedNames (snd (run_calls this cs)) = usedNames this @ fst (run_calls this cs)"
proof (induction cs arbitrary: this)
  case Nil
  then show ?case by simp
next
  case (Cons c cs)
  obtain name this' where a: "apply_call this c = (name, this')" by (cases "apply_call this c")
  obtain names this'' where r: "run_calls this' cs = (names, this'')"
    by (cases "run_calls this' cs")
  from Cons.IH [of this'] r have "usedNames this'' = usedNames this' @ names" by simp
  moreover from apply_call_used [of this c] a have "usedNames this' = usedNames this @ [name]"
    by simp
  ultimately show ?case using a r by simp
qed

lemma run_calls_names:
  "distinct (fst (run_calls this cs)) \<and> set (fst (run_calls this cs)) \<inter> set (usedNames this) = {}"
proof (induction cs arbitrary: this)
  case Nil
  then show ?case by simp
next
  case (Cons c cs)
  obtain name this' where a: "apply_call this c = (name, this')" by (cases "apply_call this c")
  obtain names this'' where r: "run_calls this' cs = (names, this'')"
    by (cases "run_calls this' cs")
  from apply_call_used [of this c] a have u: "usedNames this' = usedNames this @ [name]"
    by simp
  from apply_call_fresh [of this c] a have n: "name \<notin> set (usedNames this)" by simp
  from Cons.IH [of this'] r u
  have "distinct names" and "set names \<inter> (set (usedNames this) \<union> {name}) = {}" by simp_all
  with n show ?case using a r by auto
qed

lemma generate_unused:
  "f \<notin> set (usedNames this) \<Longrightarrow>
     generate this f = (f, this\<lparr>usedNames := usedNames this @ [f]\<rparr>)"
  by (simp add: generate_def generate_loop_unused set_add_def)

lemma generate_collision:
  assumes "f \<in> set (usedNames this)"
  shows "\<exists>stem ext n. splitsAtLastDot f stem ext
       \<and> preIdOf (fileNameToPreId this) f < n
       \<and> (\<forall>k. preIdOf (fileNameToPreId this) f < k \<and> k < n \<longrightarrow>
              stem @ ''-'' @ toFixed k @ ext \<in> set (usedNames this))
       \<and> stem @ ''-'' @ toFixed n @ ext \<notin> set (usedNames this)
       \<and> generate this f =
            (stem @ ''-'' @ toFixed n @ ext,
             \<lparr>usedNames = usedNames this @ [stem @ ''-'' @ toFixed n @ ext],
              fileNameToPreId = (fileNameToPreId this)(f \<mapsto> n)\<rparr>)"
proof -
  from splitsAtLastDot_ex [of f] obtain stem ext where sp: "splitsAtLastDot f stem ext"
    and nm: "\<forall>n. numberedName f n = stem @ ''-'' @ toFixed n @ ext" by blast
  from generate_loop_used [OF assms, of "fileNameToPreId this" f]
  obtain n where n: "preIdOf (fileNameToPreId this) f < n"
    and r: "generate_loop (usedNames this) (fileNameToPreId this) f f =
              (numberedName f n, (fileNameToPreId this)(f \<mapsto> n))"
    and fresh: "numberedName f n \<notin> set (usedNames this)"
    and below: "\<forall>k. preIdOf (fileNameToPreId this) f < k \<and> k < n \<longrightarrow>
                   numberedName f k \<in> set (usedNames this)" by blast
  have "generate this f =
          (numberedName f n,
           \<lparr>usedNames = usedNames this @ [numberedName f n],
            fileNameToPreId = (fileNameToPreId this)(f \<mapsto> n)\<rparr>)"
    using r fresh by (simp add: generate_def set_add_def)
  with sp nm n fresh below show ?thesis by metis
qed

lemma generate_counter_mono:
  "preIdOf (fileNameToPreId this) g \<le> preIdOf (fileNameToPreId (snd (generate this f))) g"
proof (cases "f \<in> set (usedNames this)")
  case False
  then show ?thesis by (simp add: generate_unused)
next
  case True
  from generate_collision [OF True] obtain stem ext n where
    "preIdOf (fileNameToPreId this) f < n"
    "fileNameToPreId (snd (generate this f)) = (fileNameToPreId this)(f \<mapsto> n)"
    by auto
  then show ?thesis by (cases "g = f") (simp_all add: preIdOf_def)
qed

lemma generateWithUUID_name:
  "\<exists>stem ext. splitsAtLastDot f stem ext
      \<and> fst (generateWithUUID this uuid f) = uuid_loop (usedNames this) uuid ext (uuid @ ext) 1"
proof -
  from splitsAtLastDot_ex [of f] obtain stem ext where "splitsAtLastDot f stem ext"
    and "(if lastIndexOf f (CHR ''.'') = - 1 then []
          else slice_from f (lastIndexOf f (CHR ''.''))) = ext" by blast
  then show ?thesis by (auto simp: generateWithUUID_def Let_def)
qed

lemma generateWithUUID_counters:
  "generateWithUUID (this\<lparr>fileNameToPreId := ids\<rparr>) uuid f =
     (fst (generateWithUUID this uuid f),
      (snd (generateWithUUID this uuid f))\<lparr>fileNameToPreId := ids\<rparr>)"
  by (simp add: generateWithUUID_def Let_def)

subsection \<open>The claims about the allocator\<close>

text \<open>
  C1. For every sequence of calls to \<^verbatim>\<open>generate\<close> and \<^verbatim>\<open>generateWithUUID\<close>, in any
  interleaving and from any state of one instance, the returned names are pairwise
  distinct and differ from every name used before; the used-name set afterwards is the
  old one extended by exactly the returned names; and a single call returns a name that
  was unused and is recorded in the state the call leaves.
\<close>

theorem allocator_names_pairwise_distinct:
  "distinct (fst (run_calls this calls))
   \<and> set (fst (run_calls this calls)) \<inter> set (usedNames this) = {}
   \<and> usedNames (snd (run_calls this calls)) = usedNames this @ fst (run_calls this calls)
   \<and> fst (apply_call this c) \<notin> set (usedNames this)
   \<and> usedNames (snd (apply_call this c)) = usedNames this @ [fst (apply_call this c)]"
  using run_calls_names [of this calls] run_calls_used [of this calls]
    apply_call_fresh [of this c] apply_call_used [of this c]
  by simp

text \<open>
  C5. \<^verbatim>\<open>generate\<close> returns an unused base name unchanged, leaving the counters alone.
  On a used base name it returns stem, \<open>-n\<close>, extension, where the name splits at its
  last dot, \<open>n\<close> is the first number above the stored counter of that base name whose
  candidate is free (every number in between has a used candidate), and the counter of the
  base name becomes \<open>n\<close>. No counter ever decreases. On a fresh allocator
  \<^verbatim>\<open>a.txt\<close> three times gives \<^verbatim>\<open>a.txt\<close>, \<^verbatim>\<open>a-1.txt\<close>, \<^verbatim>\<open>a-2.txt\<close>, and
  \<^verbatim>\<open>README\<close> twice gives \<^verbatim>\<open>README\<close>, \<^verbatim>\<open>README-1\<close>.
\<close>

theorem generate_behaviour:
  "(f \<notin> set (usedNames this) \<longrightarrow>
      generate this f = (f, this\<lparr>usedNames := usedNames this @ [f]\<rparr>))
   \<and> (f \<in> set (usedNames this) \<longrightarrow>
        (\<exists>stem ext n. splitsAtLastDot f stem ext
           \<and> preIdOf (fileNameToPreId this) f < n
           \<and> (\<forall>k. preIdOf (fileNameToPreId this) f < k \<and> k < n \<longrightarrow>
                  stem @ ''-'' @ toFixed k @ ext \<in> set (usedNames this))
           \<and> stem @ ''-'' @ toFixed n @ ext \<notin> set (usedNames this)
           \<and> generate this f =
                (stem @ ''-'' @ toFixed n @ ext,
                 \<lparr>usedNames = usedNames this @ [stem @ ''-'' @ toFixed n @ ext],
                  fileNameToPreId = (fileNameToPreId this)(f \<mapsto> n)\<rparr>)))
   \<and> preIdOf (fileNameToPreId this) g \<le> preIdOf (fileNameToPreId (snd (generate this f))) g
   \<and> fst (run_calls new_UniqueFileName
             [Generate ''a.txt'', Generate ''a.txt'', Generate ''a.txt''])
        = [''a.txt'', ''a-1.txt'', ''a-2.txt'']
   \<and> fst (run_calls new_UniqueFileName [Generate ''README'', Generate ''README''])
        = [''README'', ''README-1'']"
proof (intro conjI impI)
  show "fst (run_calls new_UniqueFileName
               [Generate ''a.txt'', Generate ''a.txt'', Generate ''a.txt''])
          = [''a.txt'', ''a-1.txt'', ''a-2.txt'']"
    by code_simp
  show "fst (run_calls new_UniqueFileName [Generate ''README'', Generate ''README''])
          = [''README'', ''README-1'']"
    by code_simp
next
  assume "f \<notin> set (usedNames this)"
  then show "generate this f = (f, this\<lparr>usedNames := usedNames this @ [f]\<rparr>)"
    by (rule generate_unused)
next
  assume "f \<in> set (usedNames this)"
  then show "\<exists>stem ext n. splitsAtLastDot f stem ext
           \<and> preIdOf (fileNameToPreId this) f < n
           \<and> (\<forall>k. preIdOf (fileNameToPreId this) f < k \<and> k < n \<longrightarrow>
                  stem @ ''-'' @ toFixed k @ ext \<in> set (usedNames this))
           \<and> stem @ ''-'' @ toFixed n @ ext \<notin> set (usedNames this)
           \<and> generate this f =
                (stem @ ''-'' @ toFixed n @ ext,
                 \<lparr>usedNames = usedNames this @ [stem @ ''-'' @ toFixed n @ ext],
                  fileNameToPreId = (fileNameToPreId this)(f \<mapsto> n)\<rparr>)"
    by (rule generate_collision)
next
  show "preIdOf (fileNameToPreId this) g \<le> preIdOf (fileNameToPreId (snd (generate this f))) g"
    by (rule generate_counter_mono)
qed

theorem generate_behaviour_witness:
  "''a.txt'' \<notin> set (usedNames new_UniqueFileName)
   \<and> generate new_UniqueFileName ''a.txt''
       = (''a.txt'', \<lparr>usedNames = [''a.txt''], fileNameToPreId = Map.empty\<rparr>)
   \<and> ''a.txt'' \<in> set (usedNames \<lparr>usedNames = [''a.txt''], fileNameToPreId = Map.empty\<rparr>)
   \<and> (\<exists>stem ext n. splitsAtLastDot ''a.txt'' stem ext
         \<and> 0 < n
         \<and> stem @ ''-'' @ toFixed n @ ext \<notin> set [''a.txt'']
         \<and> fst (generate \<lparr>usedNames = [''a.txt''], fileNameToPreId = Map.empty\<rparr> ''a.txt'')
              = stem @ ''-'' @ toFixed n @ ext)"
proof -
  let ?s = "\<lparr>usedNames = [''a.txt''], fileNameToPreId = Map.empty\<rparr>"
  have unused: "''a.txt'' \<notin> set (usedNames new_UniqueFileName)"
    by (simp add: new_UniqueFileName_def)
  have used: "''a.txt'' \<in> set (usedNames ?s)" by simp
  from generate_behaviour [of "''a.txt''" new_UniqueFileName] unused
  have first: "generate new_UniqueFileName ''a.txt'' = (''a.txt'', ?s)"
    by (simp add: new_UniqueFileName_def)
  from generate_behaviour [of "''a.txt''" ?s] used
  obtain stem ext n where "splitsAtLastDot ''a.txt'' stem ext"
    and "preIdOf (fileNameToPreId ?s) ''a.txt'' < n"
    and "stem @ ''-'' @ toFixed n @ ext \<notin> set (usedNames ?s)"
    and "generate ?s ''a.txt'' =
           (stem @ ''-'' @ toFixed n @ ext,
            \<lparr>usedNames = usedNames ?s @ [stem @ ''-'' @ toFixed n @ ext],
             fileNameToPreId = (fileNameToPreId ?s)(''a.txt'' \<mapsto> n)\<rparr>)"
    by blast
  then have "splitsAtLastDot ''a.txt'' stem ext \<and> 0 < n
      \<and> stem @ ''-'' @ toFixed n @ ext \<notin> set [''a.txt'']
      \<and> fst (generate ?s ''a.txt'') = stem @ ''-'' @ toFixed n @ ext"
    by (simp add: preIdOf_def)
  then have "\<exists>stem ext n. splitsAtLastDot ''a.txt'' stem ext \<and> 0 < n
      \<and> stem @ ''-'' @ toFixed n @ ext \<notin> set [''a.txt'']
      \<and> fst (generate ?s ''a.txt'') = stem @ ''-'' @ toFixed n @ ext"
    by blast
  with unused used first show ?thesis by blast
qed

text \<open>
  C8. \<^verbatim>\<open>generateWithUUID\<close> splits the base name at its last dot and returns token followed
  by extension when that name is unused; otherwise token, \<open>-n\<close>, extension for the first
  \<open>n\<close> from 1 on whose name is free. It records the returned name, and it neither reads
  nor writes the per-base-name counters of \<^verbatim>\<open>generate\<close>: with any other counter map it
  returns the same name and hands that map back unchanged.
\<close>

theorem generateWithUUID_behaviour:
  "\<exists>stem ext. splitsAtLastDot f stem ext
     \<and> (uuid @ ext \<notin> set (usedNames this) \<longrightarrow> fst (generateWithUUID this uuid f) = uuid @ ext)
     \<and> (uuid @ ext \<in> set (usedNames this) \<longrightarrow>
          (\<exists>n\<ge>1. fst (generateWithUUID this uuid f) = uuid @ ''-'' @ toFixed n @ ext
             \<and> uuid @ ''-'' @ toFixed n @ ext \<notin> set (usedNames this)
             \<and> (\<forall>k. 1 \<le> k \<and> k < n \<longrightarrow>
                    uuid @ ''-'' @ toFixed k @ ext \<in> set (usedNames this))))
     \<and> snd (generateWithUUID this uuid f)
          = this\<lparr>usedNames := usedNames this @ [fst (generateWithUUID this uuid f)]\<rparr>
     \<and> generateWithUUID (this\<lparr>fileNameToPreId := ids\<rparr>) uuid f =
          (fst (generateWithUUID this uuid f),
           (snd (generateWithUUID this uuid f))\<lparr>fileNameToPreId := ids\<rparr>)"
proof -
  from generateWithUUID_name [of f this uuid] obtain stem ext
    where sp: "splitsAtLastDot f stem ext"
      and nm: "fst (generateWithUUID this uuid f)
                 = uuid_loop (usedNames this) uuid ext (uuid @ ext) 1" by blast
  have a: "uuid @ ext \<notin> set (usedNames this) \<longrightarrow> fst (generateWithUUID this uuid f) = uuid @ ext"
    using nm by (simp add: uuid_loop_unused)
  have b: "uuid @ ext \<in> set (usedNames this) \<longrightarrow>
          (\<exists>n\<ge>1. fst (generateWithUUID this uuid f) = uuid @ ''-'' @ toFixed n @ ext
             \<and> uuid @ ''-'' @ toFixed n @ ext \<notin> set (usedNames this)
             \<and> (\<forall>k. 1 \<le> k \<and> k < n \<longrightarrow>
                    uuid @ ''-'' @ toFixed k @ ext \<in> set (usedNames this)))"
  proof
    assume "uuid @ ext \<in> set (usedNames this)"
    from uuid_loop_used [OF this, of 1 uuid ext] show
      "\<exists>n\<ge>1. fst (generateWithUUID this uuid f) = uuid @ ''-'' @ toFixed n @ ext
             \<and> uuid @ ''-'' @ toFixed n @ ext \<notin> set (usedNames this)
             \<and> (\<forall>k. 1 \<le> k \<and> k < n \<longrightarrow>
                    uuid @ ''-'' @ toFixed k @ ext \<in> set (usedNames this))"
      unfolding nm uuidName_def by simp
  qed
  have c: "snd (generateWithUUID this uuid f)
          = this\<lparr>usedNames := usedNames this @ [fst (generateWithUUID this uuid f)]\<rparr>"
    by (simp add: generateWithUUID_def Let_def set_add_def uuid_loop_fresh)
  have d: "generateWithUUID (this\<lparr>fileNameToPreId := ids\<rparr>) uuid f =
          (fst (generateWithUUID this uuid f),
           (snd (generateWithUUID this uuid f))\<lparr>fileNameToPreId := ids\<rparr>)"
    by (rule generateWithUUID_counters)
  from sp a b c d show ?thesis by blast
qed

theorem generateWithUUID_behaviour_witness:
  "''u.gz'' \<in> set (usedNames \<lparr>usedNames = [''u.gz''], fileNameToPreId = Map.empty\<rparr>)
   \<and> fst (generateWithUUID \<lparr>usedNames = [''u.gz''], fileNameToPreId = Map.empty\<rparr>
             ''u'' ''a.tar.gz'') = ''u-1.gz''
   \<and> ''v.gz'' \<notin> set (usedNames \<lparr>usedNames = [''u.gz''], fileNameToPreId = Map.empty\<rparr>)
   \<and> fst (generateWithUUID \<lparr>usedNames = [''u.gz''], fileNameToPreId = Map.empty\<rparr>
             ''v'' ''a.tar.gz'') = ''v.gz''
   \<and> (\<exists>stem ext. splitsAtLastDot ''a.tar.gz'' stem ext
         \<and> snd (generateWithUUID \<lparr>usedNames = [''u.gz''], fileNameToPreId = Map.empty\<rparr>
                   ''u'' ''a.tar.gz'')
             = \<lparr>usedNames = [''u.gz'', ''u-1.gz''], fileNameToPreId = Map.empty\<rparr>)"
proof -
  have e1: "fst (generateWithUUID \<lparr>usedNames = [''u.gz''], fileNameToPreId = Map.empty\<rparr>
             ''u'' ''a.tar.gz'') = ''u-1.gz''"
    by code_simp
  have e2: "fst (generateWithUUID \<lparr>usedNames = [''u.gz''], fileNameToPreId = Map.empty\<rparr>
             ''v'' ''a.tar.gz'') = ''v.gz''"
    by code_simp
  let ?s = "\<lparr>usedNames = [''u.gz''], fileNameToPreId = Map.empty\<rparr>"
  from generateWithUUID_behaviour [of "''a.tar.gz''" "''u''" ?s]
  obtain stem ext where sp: "splitsAtLastDot ''a.tar.gz'' stem ext"
    and r: "snd (generateWithUUID ?s ''u'' ''a.tar.gz'')
          = ?s\<lparr>usedNames := usedNames ?s @ [fst (generateWithUUID ?s ''u'' ''a.tar.gz'')]\<rparr>"
    by blast
  from r have "snd (generateWithUUID ?s ''u'' ''a.tar.gz'')
      = \<lparr>usedNames = [''u.gz'', ''u-1.gz''], fileNameToPreId = Map.empty\<rparr>"
    unfolding e1 by simp
  with sp e1 e2 show ?thesis by simp blast
qed

section \<open>JavaScript numbers, as far as width normalisation uses them\<close>

text \<open>
  \<^verbatim>\<open>normalizeWidthValue\<close> calls \<^verbatim>\<open>Number(value)\<close>, \<^verbatim>\<open>Number.isFinite\<close>, compares
  with 1, multiplies by 100 and calls \<^verbatim>\<open>String\<close> on the result. A JavaScript number is an
  IEEE 754 double. The model keeps a finite double as the rational number it denotes, so
  every operation is exact arithmetic followed by rounding to the nearest double, ties to the
  even significand. The two zeros are one value here: none of the operations used tells
  them apart (\<^verbatim>\<open>String\<close> prints both as \<^verbatim>\<open>0\<close>).
\<close>

datatype jsnum = NaN | PosInf | NegInf | Fin rat

definition isFinite :: "jsnum \<Rightarrow> bool" where
  "isFinite x = (case x of Fin _ \<Rightarrow> True | _ \<Rightarrow> False)"

definition pow2 :: "int \<Rightarrow> rat" where
  "pow2 e = (if 0 \<le> e then 2 ^ nat e else 1 / 2 ^ nat (- e))"

definition pow10 :: "int \<Rightarrow> rat" where
  "pow10 e = (if 0 \<le> e then 10 ^ nat e else 1 / 10 ^ nat (- e))"

definition round_half_even :: "rat \<Rightarrow> int" where
  "round_half_even r =
     (let f = \<lfloor>r\<rfloor>; d = r - of_int f
      in if d < 1 / 2 then f else if 1 / 2 < d then f + 1 else if even f then f else f + 1)"

text \<open>The number of binary digits of a positive integer, minus one.\<close>
fun ilog2 :: "nat \<Rightarrow> nat" where
  "ilog2 n = (if n < 2 then 0 else Suc (ilog2 (n div 2)))"

declare ilog2.simps [simp del]

text \<open>For a positive rational \<open>a\<close>: the exponent \<open>e\<close> with \<open>2^e \<le> a < 2^(e+1)\<close>.\<close>
definition binary_exponent :: "rat \<Rightarrow> int" where
  "binary_exponent a =
     (let (p, q) = quotient_of a;
          e0 = int (ilog2 (nat p)) - int (ilog2 (nat q))
      in if pow2 e0 \<le> a then e0 else e0 - 1)"

text \<open>
  Rounding a rational to a double: 53 significant bits, exponents from -1022 (below that
  the spacing stays \<open>2^(-1074)\<close>, the subnormal range), overflow to an infinity from
  \<open>2^1024\<close> on.
\<close>

definition round_to_double :: "rat \<Rightarrow> jsnum" where
  "round_to_double x =
     (if x = 0 then Fin 0
      else let a = \<bar>x\<bar>;
               e = max (binary_exponent a) (- 1022);
               q = pow2 (e - 52);
               v = of_int (round_half_even (a / q)) * q
           in if pow2 1024 \<le> v then (if 0 < x then PosInf else NegInf)
              else Fin (if 0 < x then v else - v))"

subsection \<open>Number(string)\<close>

text \<open>
  \<^verbatim>\<open>Number\<close> applied to a string follows the grammar StringNumericLiteral of ECMAScript:
  white space around, then nothing (the number 0), a binary, octal or hexadecimal integer, or
  an optional sign and either \<^verbatim>\<open>Infinity\<close> or decimal digits with an optional point and
  exponent; anything else is NaN. The decimal value is rounded correctly, as the engines do.
  Of the white space characters the model knows those below code unit 256.
\<close>

definition isWhiteSpace :: "char \<Rightarrow> bool" where
  "isWhiteSpace c = ((of_char c :: nat) \<in> {9, 10, 11, 12, 13, 32, 160})"

definition isDigit :: "char \<Rightarrow> bool" where
  "isDigit c = (48 \<le> (of_char c :: nat) \<and> (of_char c :: nat) \<le> 57)"

text \<open>The value of a hexadecimal digit, if it is one.\<close>
definition hexValue :: "char \<Rightarrow> nat option" where
  "hexValue c =
     (let n = (of_char c :: nat)
      in if 48 \<le> n \<and> n \<le> 57 then Some (n - 48)
         else if 97 \<le> n \<and> n \<le> 102 then Some (n - 87)
         else if 65 \<le> n \<and> n \<le> 70 then Some (n - 55)
         else None)"

definition trim :: "string \<Rightarrow> string" where
  "trim s = rev (dropWhile isWhiteSpace (rev (dropWhile isWhiteSpace s)))"

text \<open>The integer written by a list of digits in a radix; \<open>None\<close> on a digit out of range.\<close>
fun digitsValue :: "nat \<Rightarrow> nat \<Rightarrow> string \<Rightarrow> nat option" where
  "digitsValue radix acc [] = Some acc"
| "digitsValue radix acc (c # cs) =
     (case hexValue c of
        None \<Rightarrow> None
      | Some d \<Rightarrow> if d < radix then digitsValue radix (acc * radix + d) cs else None)"

definition nonDecimalLiteral :: "string \<Rightarrow> jsnum option" where
  "nonDecimalLiteral s =
     (case s of
        z # p # ds \<Rightarrow>
          if z = CHR ''0'' \<and> ds \<noteq> [] then
            (let radix = (if p = CHR ''x'' \<or> p = CHR ''X'' then 16
                          else if p = CHR ''o'' \<or> p = CHR ''O'' then 8
                          else if p = CHR ''b'' \<or> p = CHR ''B'' then 2 else (0::nat))
             in if radix = 0 then None
                else (case digitsValue radix 0 ds of
                        None \<Rightarrow> Some NaN
                      | Some n \<Rightarrow> Some (round_to_double (of_nat n))))
          else None
      | _ \<Rightarrow> None)"

text \<open>ExponentPart: e or E, an optional sign, one digit or more; the empty string is no
  exponent part.\<close>
definition exponentPart :: "string \<Rightarrow> int option" where
  "exponentPart s =
     (case s of
        [] \<Rightarrow> Some 0
      | e # r \<Rightarrow>
          if e = CHR ''e'' \<or> e = CHR ''E'' then
            (let (neg, ds) = (case r of
                                [] \<Rightarrow> (False, [])
                              | c # r' \<Rightarrow> if c = CHR ''-'' then (True, r')
                                          else if c = CHR ''+'' then (False, r') else (False, r))
             in if ds \<noteq> [] \<and> list_all isDigit ds
                then (case digitsValue 10 0 ds of
                        None \<Rightarrow> None
                      | Some n \<Rightarrow> Some (if neg then - int n else int n))
                else None)
          else None)"

definition unsignedDecimalLiteral :: "string \<Rightarrow> rat option" where
  "unsignedDecimalLiteral s =
     (let intDigits = takeWhile isDigit s;
          r1 = dropWhile isDigit s;
          (hasDot, r2) = (case r1 of
                            [] \<Rightarrow> (False, [])
                          | c # r \<Rightarrow> if c = CHR ''.'' then (True, r) else (False, r1));
          fracDigits = (if hasDot then takeWhile isDigit r2 else []);
          r3 = (if hasDot then dropWhile isDigit r2 else r2)
      in if intDigits = [] \<and> fracDigits = [] then None
         else (case exponentPart r3 of
                 None \<Rightarrow> None
               | Some e \<Rightarrow>
                   (case digitsValue 10 0 (intDigits @ fracDigits) of
                      None \<Rightarrow> None
                    | Some n \<Rightarrow> Some (of_nat n * pow10 (e - int (length fracDigits))))))"

definition unsignedLiteral :: "bool \<Rightarrow> string \<Rightarrow> jsnum" where
  "unsignedLiteral neg u =
     (if u = ''Infinity'' then (if neg then NegInf else PosInf)
      else (case unsignedDecimalLiteral u of
              None \<Rightarrow> NaN
            | Some m \<Rightarrow> round_to_double (if neg then - m else m)))"

definition decimalLiteral :: "string \<Rightarrow> jsnum" where
  "decimalLiteral s =
     (case s of
        [] \<Rightarrow> NaN
      | c # r \<Rightarrow> if c = CHR ''-'' then unsignedLiteral True r
                 else if c = CHR ''+'' then unsignedLiteral False r
                 else unsignedLiteral False s)"

definition Number :: "string \<Rightarrow> jsnum" where
  "Number str =
     (let s = trim str
      in if s = [] then Fin 0
         else (case nonDecimalLiteral s of
                 Some n \<Rightarrow> n
               | None \<Rightarrow> decimalLiteral s))"

subsection \<open>String(number)\<close>

text \<open>
  \<^verbatim>\<open>String\<close> applied to a number is Number::toString of ECMAScript: the shortest decimal
  digit string \<open>s\<close> (with \<open>k\<close> digits) and exponent \<open>n\<close> such that \<open>s * 10^(n-k)\<close>
  rounds to the number, the nearest such value when there are several, laid out with or
  without exponent depending on \<open>n\<close>.
\<close>

text \<open>The number of decimal digits of a positive integer.\<close>
fun decimalLength :: "nat \<Rightarrow> nat" where
  "decimalLength n = (if n < 10 then 1 else Suc (decimalLength (n div 10)))"

declare decimalLength.simps [simp del]

text \<open>For \<open>0 < p < q\<close>: the number of zeros after the point before the first non-zero digit
  of \<open>p / q\<close>, plus one.\<close>
function leadingShift :: "nat \<Rightarrow> nat \<Rightarrow> nat" where
  "leadingShift p q = (if p = 0 \<or> q \<le> p then 0 else Suc (leadingShift (p * 10) q))"
  by pat_completeness auto
termination
  by (relation "measure (\<lambda>(p, q). q - p)") auto

declare leadingShift.simps [simp del]

text \<open>For a positive rational \<open>a\<close>: the \<open>n\<close> with \<open>10^(n-1) \<le> a < 10^n\<close>.\<close>
definition decimal_exponent :: "rat \<Rightarrow> int" where
  "decimal_exponent a =
     (if 1 \<le> a then int (decimalLength (nat \<lfloor>a\<rfloor>))
      else (let (p, q) = quotient_of a in 1 - int (leadingShift (nat p) (nat q))))"

text \<open>
  The candidates with k digits for a positive double x: pairs (n, s) with
  10^(k-1) <= s < 10^k whose value s * 10^(n-k) rounds to x. Only the two k-digit
  decimals that enclose x can be among them and be nearest to x.
\<close>
definition digitCandidates :: "rat \<Rightarrow> nat \<Rightarrow> (int \<times> int) list" where
  "digitCandidates x k =
     (let n = decimal_exponent x;
          t = x / pow10 (n - int k);
          lo = \<lfloor>t\<rfloor>;
          his = (if of_int lo = t then [] else [lo + 1]);
          norm = (\<lambda>s. if s = 10 ^ k then (n + 1, 10 ^ (k - 1)) else (n, s))
      in filter (\<lambda>(n', s). round_to_double (of_int s * pow10 (n' - int k)) = Fin x)
           (map norm (lo # his)))"

text \<open>Of the candidates the one nearest to \<open>x\<close>, an even \<open>s\<close> on a tie.\<close>
definition nearestCandidate :: "rat \<Rightarrow> nat \<Rightarrow> (int \<times> int) list \<Rightarrow> (int \<times> int) option" where
  "nearestCandidate x k cs =
     (case cs of
        [] \<Rightarrow> None
      | [c] \<Rightarrow> Some c
      | c1 # c2 # _ \<Rightarrow>
          (let d1 = \<bar>of_int (snd c1) * pow10 (fst c1 - int k) - x\<bar>;
               d2 = \<bar>of_int (snd c2) * pow10 (fst c2 - int k) - x\<bar>
           in if d1 < d2 then Some c1 else if d2 < d1 then Some c2
              else if even (snd c1) then Some c1 else Some c2))"

text \<open>The least \<open>k\<close> from the given one up to 17 that has a candidate; a double always has
  one.\<close>
function shortestDigits :: "rat \<Rightarrow> nat \<Rightarrow> nat \<times> int \<times> int" where
  "shortestDigits x k =
     (case nearestCandidate x k (digitCandidates x k) of
        Some (n, s) \<Rightarrow> (k, n, s)
      | None \<Rightarrow> if 17 \<le> k then (k, decimal_exponent x, \<lfloor>x / pow10 (decimal_exponent x - int k)\<rfloor>)
                else shortestDigits x (Suc k))"
  by pat_completeness auto
termination
  by (relation "measure (\<lambda>(x, k). 17 - k)") auto

declare shortestDigits.simps [simp del]

definition positiveToString :: "rat \<Rightarrow> string" where
  "positiveToString x =
     (let (k, n, s) = shortestDigits x 1;
          digits = toFixed (nat s)
      in if int k \<le> n \<and> n \<le> 21 then digits @ replicate (nat (n - int k)) (CHR ''0'')
         else if 0 < n \<and> n \<le> 21 then take (nat n) digits @ ''.'' @ drop (nat n) digits
         else if - 6 < n \<and> n \<le> 0 then ''0.'' @ replicate (nat (- n)) (CHR ''0'') @ digits
         else (let e = n - 1;
                   expo = (if e < 0 then ''-'' else ''+'') @ toFixed (nat \<bar>e\<bar>)
               in if k = 1 then digits @ ''e'' @ expo
                  else take 1 digits @ ''.'' @ drop 1 digits @ ''e'' @ expo))"

definition String :: "jsnum \<Rightarrow> string" where
  "String x =
     (case x of
        NaN \<Rightarrow> ''NaN''
      | PosInf \<Rightarrow> ''Infinity''
      | NegInf \<Rightarrow> ''-Infinity''
      | Fin r \<Rightarrow> if r = 0 then ''0''
                 else if r < 0 then ''-'' @ positiveToString (- r)
                 else positiveToString r)"

subsection \<open>Arithmetic and normalizeWidthValue\<close>

definition js_times :: "jsnum \<Rightarrow> jsnum \<Rightarrow> jsnum" where
  "js_times a b =
     (case (a, b) of
        (Fin x, Fin y) \<Rightarrow> round_to_double (x * y)
      | (NaN, _) \<Rightarrow> NaN
      | (_, NaN) \<Rightarrow> NaN
      | (Fin x, PosInf) \<Rightarrow> if x = 0 then NaN else if 0 < x then PosInf else NegInf
      | (Fin x, NegInf) \<Rightarrow> if x = 0 then NaN else if 0 < x then NegInf else PosInf
      | (PosInf, Fin y) \<Rightarrow> if y = 0 then NaN else if 0 < y then PosInf else NegInf
      | (NegInf, Fin y) \<Rightarrow> if y = 0 then NaN else if 0 < y then NegInf else PosInf
      | (PosInf, PosInf) \<Rightarrow> PosInf
      | (NegInf, NegInf) \<Rightarrow> PosInf
      | (PosInf, NegInf) \<Rightarrow> NegInf
      | (NegInf, PosInf) \<Rightarrow> NegInf)"

definition js_le :: "jsnum \<Rightarrow> jsnum \<Rightarrow> bool" where
  "js_le a b =
     (case (a, b) of
        (NaN, _) \<Rightarrow> False
      | (_, NaN) \<Rightarrow> False
      | (Fin x, Fin y) \<Rightarrow> x \<le> y
      | (NegInf, _) \<Rightarrow> True
      | (_, PosInf) \<Rightarrow> True
      | (PosInf, _) \<Rightarrow> False
      | (_, NegInf) \<Rightarrow> False)"

text \<open>
  The test \<^verbatim>\<open>/[a-z]/i.test(value)\<close>: without the unicode flag, ignoring case matches
  exactly the 52 ASCII letters.
\<close>

definition isAsciiLetter :: "char \<Rightarrow> bool" where
  "isAsciiLetter c =
     (let n = (of_char c :: nat) in (97 \<le> n \<and> n \<le> 122) \<or> (65 \<le> n \<and> n \<le> 90))"

definition normalizeWidthValue :: "string \<Rightarrow> string" where
  "normalizeWidthValue value' =
     (if CHR ''%'' \<in> set value' \<or> list_ex isAsciiLetter value' then value'
      else let numeric = Number value'
           in if \<not> isFinite numeric then value'
              else if js_le numeric (Fin 1) then String (js_times numeric (Fin 100)) @ ''%''
              else String numeric @ ''px'')"

subsection \<open>Strings that are not numeric\<close>

text \<open>The characters that can occur in a numeric string without letters.\<close>

definition isNumericChar :: "char \<Rightarrow> bool" where
  "isNumericChar c =
     (isDigit c \<or> c = CHR ''.'' \<or> c = CHR ''+'' \<or> c = CHR ''-'' \<or> isWhiteSpace c)"

lemma in_dropWhile: "x \<in> set xs \<Longrightarrow> \<not> P x \<Longrightarrow> x \<in> set (dropWhile P xs)"
  by (induction xs) auto

lemma in_trim: "x \<in> set s \<Longrightarrow> \<not> isWhiteSpace x \<Longrightarrow> x \<in> set (trim s)"
  by (simp add: trim_def in_dropWhile)

lemma set_trim: "set (trim s) \<subseteq> set s"
proof -
  have "set (trim s) \<subseteq> set (dropWhile isWhiteSpace s)"
    unfolding trim_def using set_dropWhileD by fastforce
  also have "\<dots> \<subseteq> set s" using set_dropWhileD by fastforce
  finally show ?thesis .
qed

lemma letter_chars:
  "isAsciiLetter (CHR ''x'')" "isAsciiLetter (CHR ''X'')" "isAsciiLetter (CHR ''o'')"
  "isAsciiLetter (CHR ''O'')" "isAsciiLetter (CHR ''b'')" "isAsciiLetter (CHR ''B'')"
  "isAsciiLetter (CHR ''e'')" "isAsciiLetter (CHR ''E'')" "isAsciiLetter (CHR ''I'')"
  by (simp_all add: isAsciiLetter_def)

lemma nonDecimalLiteral_no_letters:
  "\<forall>x\<in>set s. \<not> isAsciiLetter x \<Longrightarrow> nonDecimalLiteral s = None"
proof -
  assume nl: "\<forall>x\<in>set s. \<not> isAsciiLetter x"
  show ?thesis
  proof (cases s)
    case Nil
    then show ?thesis by (simp add: nonDecimalLiteral_def)
  next
    case (Cons z t)
    show ?thesis
    proof (cases t)
      case Nil
      with Cons show ?thesis by (simp add: nonDecimalLiteral_def)
    next
      case t: (Cons p ds)
      from nl Cons t have "\<not> isAsciiLetter p" by simp
      with letter_chars have "p \<noteq> CHR ''x''" "p \<noteq> CHR ''X''" "p \<noteq> CHR ''o''"
        "p \<noteq> CHR ''O''" "p \<noteq> CHR ''b''" "p \<noteq> CHR ''B''" by blast+
      with Cons t show ?thesis by (simp add: nonDecimalLiteral_def)
    qed
  qed
qed

lemma exponentPart_no_letters:
  "\<forall>x\<in>set s. \<not> isAsciiLetter x \<Longrightarrow> s \<noteq> [] \<Longrightarrow> exponentPart s = None"
proof -
  assume nl: "\<forall>x\<in>set s. \<not> isAsciiLetter x" and "s \<noteq> []"
  then obtain e r where s: "s = e # r" by (cases s) auto
  with nl have "\<not> isAsciiLetter e" by simp
  with letter_chars have "e \<noteq> CHR ''e''" "e \<noteq> CHR ''E''" by blast+
  with s show ?thesis by (simp add: exponentPart_def)
qed

lemma unsignedDecimalLiteral_stray:
  assumes c: "c \<in> set u" and nd: "\<not> isDigit c" and ndot: "c \<noteq> CHR ''.''"
    and nl: "\<forall>x\<in>set u. \<not> isAsciiLetter x"
  shows "unsignedDecimalLiteral u = None"
proof -
  let ?r1 = "dropWhile isDigit u"
  have u: "u = takeWhile isDigit u @ ?r1" by simp
  have cr1: "c \<in> set ?r1" using c nd by (rule in_dropWhile)
  then obtain c1 r where r1: "?r1 = c1 # r" by (cases ?r1) auto
  have sub1: "set ?r1 \<subseteq> set u" using set_dropWhileD by fastforce
  show ?thesis
  proof (cases "c1 = CHR ''.''")
    case True
    let ?r3 = "dropWhile isDigit r"
    from cr1 r1 True ndot have "c \<in> set r" by auto
    then have cr3: "c \<in> set ?r3" using nd by (rule in_dropWhile)
    then have ne: "?r3 \<noteq> []" by (metis empty_iff empty_set)
    have "set ?r3 \<subseteq> set r" using set_dropWhileD by fastforce
    with sub1 r1 have "set ?r3 \<subseteq> set u" by auto
    with nl have "\<forall>x\<in>set ?r3. \<not> isAsciiLetter x" by auto
    from exponentPart_no_letters [OF this ne] r1 True show ?thesis
      by (simp add: unsignedDecimalLiteral_def Let_def)
  next
    case False
    from nl sub1 have "\<forall>x\<in>set ?r1. \<not> isAsciiLetter x" by auto
    moreover have "?r1 \<noteq> []" using r1 by simp
    ultimately have "exponentPart ?r1 = None" by (rule exponentPart_no_letters)
    with r1 False show ?thesis
      by (simp add: unsignedDecimalLiteral_def Let_def)
  qed
qed

lemma unsignedLiteral_stray:
  assumes "c \<in> set u" "\<not> isDigit c" "c \<noteq> CHR ''.''" "\<forall>x\<in>set u. \<not> isAsciiLetter x"
  shows "unsignedLiteral neg u = NaN"
proof -
  have "u \<noteq> ''Infinity''" using assms(4) letter_chars(9) by auto
  with unsignedDecimalLiteral_stray [OF assms] show ?thesis by (simp add: unsignedLiteral_def)
qed

lemma Number_stray:
  assumes c: "c \<in> set v" and nn: "\<not> isNumericChar c" and nl: "\<not> list_ex isAsciiLetter v"
  shows "Number v = NaN"
proof -
  let ?s = "trim v"
  from nn have nd: "\<not> isDigit c" and ndot: "c \<noteq> CHR ''.''" and np: "c \<noteq> CHR ''+''"
    and nm: "c \<noteq> CHR ''-''" and nw: "\<not> isWhiteSpace c"
    by (simp_all add: isNumericChar_def)
  have cs: "c \<in> set ?s" using c nw by (rule in_trim)
  have nls: "\<forall>x\<in>set ?s. \<not> isAsciiLetter x"
    using nl set_trim [of v] by (auto simp: list_ex_iff)
  from cs obtain c0 r where s: "?s = c0 # r" by (cases ?s) auto
  have nonDec: "nonDecimalLiteral ?s = None" using nls by (rule nonDecimalLiteral_no_letters)
  have "decimalLiteral ?s = NaN"
  proof (cases "c0 = CHR ''-'' \<or> c0 = CHR ''+''")
    case True
    with cs s np nm have "c \<in> set r" by auto
    moreover from nls s have "\<forall>x\<in>set r. \<not> isAsciiLetter x" by simp
    ultimately have "unsignedLiteral neg r = NaN" for neg
      using nd ndot by (intro unsignedLiteral_stray)
    with True s show ?thesis by (auto simp: decimalLiteral_def)
  next
    case False
    have "unsignedLiteral False ?s = NaN" using cs nd ndot nls by (rule unsignedLiteral_stray)
    with False s show ?thesis by (simp add: decimalLiteral_def)
  qed
  with nonDec s show ?thesis by (simp add: Number_def Let_def)
qed

lemma normalizeWidthValue_stray:
  "c \<in> set v \<Longrightarrow> \<not> isNumericChar c \<Longrightarrow> normalizeWidthValue v = v"
  using Number_stray [of c v]
  by (cases "list_ex isAsciiLetter v") (auto simp: normalizeWidthValue_def Let_def isFinite_def)

subsection \<open>Evaluated conversions\<close>

lemma String_half: "String (Fin (1 / 2)) = ''0.5''"
proof -
  have a: "shortestDigits (1 / 2) (Suc 0) = (Suc 0, 0, 5)" by code_simp
  have b: "toFixed 5 = ''5''" by code_simp
  show ?thesis by (simp add: String_def positiveToString_def a b)
qed

lemma String_fifty: "String (Fin 50) = ''50''"
proof -
  have a: "shortestDigits 50 (Suc 0) = (Suc 0, 2, 5)" by code_simp
  have b: "toFixed 5 = ''5''" by code_simp
  show ?thesis by (simp add: String_def positiveToString_def a b)
qed

lemma String_300: "String (Fin 300) = ''300''"
proof -
  have a: "shortestDigits 300 (Suc 0) = (Suc 0, 3, 3)" by code_simp
  have b: "toFixed 3 = ''3''" by code_simp
  have c: "replicate 2 (CHR ''0'') = ''00''" by (simp add: numeral_2_eq_2)
  show ?thesis by (simp add: String_def positiveToString_def a b c)
qed

lemma normalize_half: "normalizeWidthValue ''0.5'' = ''50%''"
proof -
  have a: "Number ''0.5'' = Fin (1 / 2)" by code_simp
  have b: "js_times (Fin (1 / 2)) (Fin 100) = Fin 50" by code_simp
  show ?thesis
    by (simp add: normalizeWidthValue_def a b isAsciiLetter_def isFinite_def js_le_def String_fifty)
qed

lemma normalize_300: "normalizeWidthValue ''300'' = ''300px''"
proof -
  have a: "Number ''300'' = Fin 300" by code_simp
  show ?thesis
    by (simp add: normalizeWidthValue_def a isAsciiLetter_def isFinite_def js_le_def String_300)
qed

section \<open>Document trees and the grid table rewriter\<close>

text \<open>
  \<^verbatim>\<open>transformGridToHtml\<close> walks a tree that the caller owns and compares no node with
  another, so the tree is a value here: a node has its \<^verbatim>\<open>type\<close>, the two metadata fields
  that the code reads (\<^verbatim>\<open>data.type\<close> and \<^verbatim>\<open>data.colWidths\<close>, each absent or present), a
  child array if it is a container, and a \<^verbatim>\<open>value\<close> if it is a literal. The function
  returns the tree that the in-place version leaves behind. Reading \<^verbatim>\<open>.length\<close> of a child
  array that is absent throws a TypeError; the model returns it as a value.
\<close>

datatype error = TypeError

datatype mdnode = MdNode
  (ntype: string)
  (data_type: "string option")
  (data_colWidths: "jsnum list option")
  (children: "mdnode list option")
  (nvalue: "string option")

text \<open>The presentational tree, with the four fields of the interface \<^verbatim>\<open>HastNode\<close>.\<close>

datatype hast = HastNode
  (htype: string)
  (tagName: "string option")
  (properties: "(string \<times> string) list option")
  (hchildren: "hast list option")

definition isParent :: "mdnode \<Rightarrow> bool" where
  "isParent node = (children node \<noteq> None)"

text \<open>The replacement node \<^verbatim>\<open>{ type: 'html', value }\<close>.\<close>

definition html :: "string \<Rightarrow> mdnode" where
  "html v = MdNode ''html'' None None None (Some v)"

text \<open>
  \<^verbatim>\<open>findTableElement\<close> returns a reference to a node of the tree it searches, and the caller
  assigns to a field of that node. A reference into a tree value is a position: the list of
  child indices that leads to the node. \<^verbatim>\<open>null\<close> is \<open>None\<close>. The loop over the children is
  \<open>findTableElement_loop\<close>, which carries the index of the child it looks at.
\<close>

fun findTableElement :: "hast \<Rightarrow> nat list option"
  and findTableElement_loop :: "nat \<Rightarrow> hast list \<Rightarrow> nat list option" where
  "findTableElement (HastNode ty tag props cs) =
     (if ty = ''element'' \<and> tag = Some ''table'' then Some []
      else (case cs of None \<Rightarrow> None | Some cs' \<Rightarrow> findTableElement_loop 0 cs'))"
| "findTableElement_loop i [] = None"
| "findTableElement_loop i (child # rest) =
     (case findTableElement child of
        Some found \<Rightarrow> Some (i # found)
      | None \<Rightarrow> findTableElement_loop (Suc i) rest)"

text \<open>The node at a position, and the tree after a change of the node at a position. (A
  position that \<open>findTableElement\<close> returns exists in the tree; at any other the tree is
  left as it is.)\<close>

fun hast_at :: "hast \<Rightarrow> nat list \<Rightarrow> hast option" where
  "hast_at node [] = Some node"
| "hast_at node (i # p) =
     (case hchildren node of
        None \<Rightarrow> None
      | Some cs \<Rightarrow> if i < length cs then hast_at (cs ! i) p else None)"

fun hast_update :: "hast \<Rightarrow> nat list \<Rightarrow> (hast \<Rightarrow> hast) \<Rightarrow> hast" where
  "hast_update node [] f = f node"
| "hast_update node (i # p) f =
     (case hchildren node of
        None \<Rightarrow> node
      | Some cs \<Rightarrow>
          if i < length cs
          then HastNode (htype node) (tagName node) (properties node)
                 (Some (cs[i := hast_update (cs ! i) p f]))
          else node)"

definition extractColumnWidths :: "mdnode \<Rightarrow> error + string list option" where
  "extractColumnWidths table =
     (case data_colWidths table of
        None \<Rightarrow> Inr None
      | Some colWidths \<Rightarrow>
          if length colWidths = 0 then Inr None
          else (case children table of
                  None \<Rightarrow> Inl TypeError
                | Some rows \<Rightarrow>
                    if length rows = 0 then Inr None
                    else (case children (rows ! 0) of
                            None \<Rightarrow> Inl TypeError
                          | Some cells \<Rightarrow>
                              let columnCount = length cells
                              in if length colWidths \<noteq> columnCount then Inr None
                                 else Inr (Some (map (\<lambda>value'. normalizeWidthValue (String value'))
                                                  colWidths)))))"

text \<open>The \<^verbatim>\<open>col\<close> and \<^verbatim>\<open>colgroup\<close> elements that \<^verbatim>\<open>visit\<close> builds, and the assignment
  \<^verbatim>\<open>tableElement.children = [colgroup, ...(tableElement.children ?? [])]\<close>.\<close>

definition col :: "string \<Rightarrow> hast" where
  "col width = HastNode ''element'' (Some ''col'') (Some [(''style'', ''width: '' @ width)]) (Some [])"

definition colgroup :: "string list \<Rightarrow> hast" where
  "colgroup colWidths = HastNode ''element'' (Some ''colgroup'') None (Some (map col colWidths))"

definition prependChild :: "hast \<Rightarrow> hast \<Rightarrow> hast" where
  "prependChild c tableElement =
     HastNode (htype tableElement) (tagName tableElement) (properties tableElement)
       (Some (c # (case hchildren tableElement of None \<Rightarrow> [] | Some cs \<Rightarrow> cs)))"

text \<open>The test \<^verbatim>\<open>child.type === 'table' && tableType === 'grid'\<close>.\<close>

definition isGridTable :: "mdnode \<Rightarrow> bool" where
  "isGridTable child = (ntype child = ''table'' \<and> data_type child = Some ''grid'')"

text \<open>
  The body of the branch for a grid table: what replaces the child. The two library
  functions \<^verbatim>\<open>toHast\<close> and \<^verbatim>\<open>toHtml\<close> are arguments, each with the flag
  \<^verbatim>\<open>allowDangerousHtml\<close> it is given, so every statement holds for whatever they compute.
\<close>

definition convertGrid ::
  "(mdnode \<Rightarrow> bool \<Rightarrow> hast) \<Rightarrow> (hast \<Rightarrow> bool \<Rightarrow> string) \<Rightarrow> bool \<Rightarrow> mdnode \<Rightarrow> error + mdnode" where
  "convertGrid toHast toHtml allowDangerousHtml child =
     (case extractColumnWidths child of
        Inl e \<Rightarrow> Inl e
      | Inr colWidths \<Rightarrow>
          let hast = toHast child allowDangerousHtml;
              tableElement = findTableElement hast;
              hast' = (case (tableElement, colWidths) of
                         (Some p, Some ws) \<Rightarrow> hast_update hast p (prependChild (colgroup ws))
                       | _ \<Rightarrow> hast)
          in Inr (html (toHtml hast' allowDangerousHtml)))"

text \<open>Results of a loop in order: the first error ends it.\<close>

fun sequence :: "('e + 'a) list \<Rightarrow> 'e + 'a list" where
  "sequence [] = Inr []"
| "sequence (x # xs) =
     (case x of
        Inl e \<Rightarrow> Inl e
      | Inr y \<Rightarrow> (case sequence xs of Inl e \<Rightarrow> Inl e | Inr ys \<Rightarrow> Inr (y # ys)))"

text \<open>
  \<^verbatim>\<open>visit\<close>: the loop replaces the child at each index by one node or leaves it, and never
  changes the length of the array, so it is a map over the children, in order. A grid
  table is converted and not entered (\<^verbatim>\<open>continue\<close>); another container is visited; any other
  child stays.
\<close>

fun visit ::
  "(mdnode \<Rightarrow> bool \<Rightarrow> hast) \<Rightarrow> (hast \<Rightarrow> bool \<Rightarrow> string) \<Rightarrow> bool \<Rightarrow> mdnode \<Rightarrow> error + mdnode" where
  "visit toHast toHtml allow (MdNode ty dty cw None v) = Inl TypeError"
| "visit toHast toHtml allow (MdNode ty dty cw (Some cs) v) =
     (case sequence (map (\<lambda>child.
                if isGridTable child then convertGrid toHast toHtml allow child
                else if isParent child then visit toHast toHtml allow child
                else Inr child) cs) of
        Inl e \<Rightarrow> Inl e
      | Inr cs' \<Rightarrow> Inr (MdNode ty dty cw (Some cs') v))"

definition transformGridToHtml ::
  "(mdnode \<Rightarrow> bool \<Rightarrow> hast) \<Rightarrow> (hast \<Rightarrow> bool \<Rightarrow> string) \<Rightarrow> mdnode \<Rightarrow> bool \<Rightarrow> error + mdnode" where
  "transformGridToHtml toHast toHtml root' allowDangerousHtml =
     visit toHast toHtml allowDangerousHtml root'"

subsection \<open>Positions in a document tree\<close>

text \<open>The node at a position, a list of child indices from the root.\<close>

fun node_at :: "mdnode \<Rightarrow> nat list \<Rightarrow> mdnode option" where
  "node_at node [] = Some node"
| "node_at node (i # p) =
     (case children node of
        None \<Rightarrow> None
      | Some cs \<Rightarrow> if i < length cs then node_at (cs ! i) p else None)"

text \<open>A grid table lies strictly between the root and the position: the position is inside
  a grid table.\<close>
fun insideGrid :: "mdnode \<Rightarrow> nat list \<Rightarrow> bool" where
  "insideGrid node [] = False"
| "insideGrid node [i] = False"
| "insideGrid node (i # j # p) =
     (case children node of
        None \<Rightarrow> False
      | Some cs \<Rightarrow> i < length cs \<and> (isGridTable (cs ! i) \<or> insideGrid (cs ! i) (j # p)))"

text \<open>Some node below the given one is a grid table.\<close>

fun containsGrid :: "mdnode \<Rightarrow> bool" where
  "containsGrid (MdNode ty dty cw cs v) =
     (case cs of
        None \<Rightarrow> False
      | Some cs' \<Rightarrow> list_ex (\<lambda>child. isGridTable child \<or> containsGrid child) cs')"

text \<open>What the loop body of \<^verbatim>\<open>visit\<close> puts in the place of one child.\<close>

definition visitChild ::
  "(mdnode \<Rightarrow> bool \<Rightarrow> hast) \<Rightarrow> (hast \<Rightarrow> bool \<Rightarrow> string) \<Rightarrow> bool \<Rightarrow> mdnode \<Rightarrow> error + mdnode" where
  "visitChild toHast toHtml allow child =
     (if isGridTable child then convertGrid toHast toHtml allow child
      else if isParent child then visit toHast toHtml allow child
      else Inr child)"

lemma sequence_Inr:
  "sequence xs = Inr ys \<Longrightarrow> length ys = length xs \<and> (\<forall>i<length xs. xs ! i = Inr (ys ! i))"
proof (induction xs arbitrary: ys)
  case Nil
  then show ?case by simp
next
  case (Cons x xs)
  from Cons.prems obtain y ys' where x: "x = Inr y" and s: "sequence xs = Inr ys'"
    and ys: "ys = y # ys'"
    by (auto split: sum.splits)
  from Cons.IH [OF s] have "length ys' = length xs" and "\<forall>i<length xs. xs ! i = Inr (ys' ! i)"
    by simp_all
  with x ys show ?case by (auto simp: nth_Cons split: nat.splits)
qed

lemma sequence_all_Inr:
  "(\<forall>x\<in>set xs. \<exists>y. x = Inr y) \<Longrightarrow> \<exists>ys. sequence xs = Inr ys"
  by (induction xs) auto

lemma sequence_map_id:
  "(\<forall>x\<in>set xs. f x = Inr x) \<Longrightarrow> sequence (map f xs) = Inr xs"
  by (induction xs) auto

lemma visit_children:
  "children n = Some cs \<Longrightarrow>
     visit toHast toHtml allow n =
       (case sequence (map (visitChild toHast toHtml allow) cs) of
          Inl e \<Rightarrow> Inl e
        | Inr cs' \<Rightarrow> Inr (MdNode (ntype n) (data_type n) (data_colWidths n) (Some cs') (nvalue n)))"
  by (cases n) (auto simp: visitChild_def [abs_def] split: sum.splits)

lemma visit_no_children: "children n = None \<Longrightarrow> visit toHast toHtml allow n = Inl TypeError"
  by (cases n) simp

lemma visit_Inr:
  assumes "visit toHast toHtml allow n = Inr n'"
  shows "\<exists>cs cs'. children n = Some cs \<and> children n' = Some cs' \<and> length cs' = length cs
           \<and> ntype n' = ntype n \<and> data_type n' = data_type n
           \<and> data_colWidths n' = data_colWidths n \<and> nvalue n' = nvalue n
           \<and> (\<forall>i<length cs. visitChild toHast toHtml allow (cs ! i) = Inr (cs' ! i))"
proof (cases "children n")
  case None
  with assms show ?thesis by (simp add: visit_no_children)
next
  case (Some cs)
  with assms obtain cs' where s: "sequence (map (visitChild toHast toHtml allow) cs) = Inr cs'"
    and n': "n' = MdNode (ntype n) (data_type n) (data_colWidths n) (Some cs') (nvalue n)"
    by (auto simp: visit_children split: sum.splits)
  from sequence_Inr [OF s] have "length cs' = length cs"
    and "\<forall>i<length cs. visitChild toHast toHtml allow (cs ! i) = Inr (cs' ! i)" by simp_all
  with Some n' show ?thesis by simp
qed

lemma convertGrid_Inr:
  "convertGrid toHast toHtml allow c = Inr h \<Longrightarrow> \<exists>v. h = html v"
  by (auto simp: convertGrid_def Let_def split: sum.splits)

lemma children_html: "children (html v) = None"
  by (simp add: html_def)

lemma visit_at:
  "visit toHast toHtml allow n = Inr n' \<Longrightarrow> node_at n (i # p) = Some c \<Longrightarrow>
   \<not> insideGrid n (i # p) \<Longrightarrow>
     \<exists>c'. node_at n' (i # p) = Some c' \<and> visitChild toHast toHtml allow c = Inr c'"
proof (induction p arbitrary: n n' i)
  case Nil
  from visit_Inr [OF Nil.prems(1)] obtain cs cs' where cs: "children n = Some cs"
    and cs': "children n' = Some cs'" and len: "length cs' = length cs"
    and each: "\<forall>i<length cs. visitChild toHast toHtml allow (cs ! i) = Inr (cs' ! i)"
    by blast
  from Nil.prems(2) cs have i: "i < length cs" and c: "c = cs ! i"
    by (auto split: if_splits)
  with cs' len each show ?case by simp
next
  case (Cons j p)
  from visit_Inr [OF Cons.prems(1)] obtain cs cs' where cs: "children n = Some cs"
    and cs': "children n' = Some cs'" and len: "length cs' = length cs"
    and each: "\<forall>i<length cs. visitChild toHast toHtml allow (cs ! i) = Inr (cs' ! i)"
    by blast
  from Cons.prems(2) cs have i: "i < length cs" and at: "node_at (cs ! i) (j # p) = Some c"
    by (auto split: if_splits)
  from Cons.prems(3) cs i have ng: "\<not> isGridTable (cs ! i)"
    and ni: "\<not> insideGrid (cs ! i) (j # p)" by simp_all
  from at have par: "isParent (cs ! i)"
    by (auto simp: isParent_def split: option.splits)
  from each [rule_format, OF i] ng par
  have v: "visit toHast toHtml allow (cs ! i) = Inr (cs' ! i)"
    by (simp add: visitChild_def)
  from Cons.IH [OF v at ni] obtain c' where "node_at (cs' ! i) (j # p) = Some c'"
    and "visitChild toHast toHtml allow c = Inr c'" by blast
  with cs' len i show ?case by simp
qed

text \<open>For a position inside a grid table: the position of the outermost grid table above it.\<close>
fun enclosingGrid :: "mdnode \<Rightarrow> nat list \<Rightarrow> nat list" where
  "enclosingGrid node (i # j # p) =
     (case children node of
        None \<Rightarrow> []
      | Some cs \<Rightarrow> if isGridTable (cs ! i) then [i] else i # enclosingGrid (cs ! i) (j # p))"
| "enclosingGrid node p = p"

lemma visit_inside:
  "visit toHast toHtml allow n = Inr n' \<Longrightarrow> node_at n p = Some c \<Longrightarrow> insideGrid n p \<Longrightarrow>
     \<exists>g. node_at n (enclosingGrid n p) = Some g \<and> isGridTable g
       \<and> \<not> insideGrid n (enclosingGrid n p)
       \<and> (\<exists>q. q \<noteq> [] \<and> p = enclosingGrid n p @ q)
       \<and> (\<exists>h. convertGrid toHast toHtml allow g = Inr h \<and> node_at n' (enclosingGrid n p) = Some h)
       \<and> node_at n' p = None"
proof (induction n p arbitrary: n' rule: insideGrid.induct)
  case (1 node)
  then show ?case by simp
next
  case (2 node i)
  then show ?case by simp
next
  case (3 node i j p)
  from visit_Inr [OF "3.prems"(1)] obtain cs cs' where cs: "children node = Some cs"
    and cs': "children n' = Some cs'" and len: "length cs' = length cs"
    and each: "\<forall>i<length cs. visitChild toHast toHtml allow (cs ! i) = Inr (cs' ! i)"
    by blast
  from "3.prems"(2) cs have i: "i < length cs" and at: "node_at (cs ! i) (j # p) = Some c"
    by (auto split: if_splits)
  show ?case
  proof (cases "isGridTable (cs ! i)")
    case True
    with each [rule_format, OF i]
    have conv: "convertGrid toHast toHtml allow (cs ! i) = Inr (cs' ! i)"
      by (simp add: visitChild_def)
    from convertGrid_Inr [OF conv] obtain v where h: "cs' ! i = html v" by blast
    have "node_at n' (i # j # p) = None" using cs' len i h by (simp add: children_html)
    moreover have "node_at n' [i] = Some (cs' ! i)" using cs' len i by simp
    moreover have "enclosingGrid node (i # j # p) = [i]" using cs True by simp
    moreover have "node_at node [i] = Some (cs ! i)" using cs i by simp
    ultimately show ?thesis using True conv by simp
  next
    case False
    with "3.prems"(3) cs i have ins: "insideGrid (cs ! i) (j # p)" by simp
    from at have par: "isParent (cs ! i)"
      by (auto simp: isParent_def split: option.splits)
    from each [rule_format, OF i] False par
    have v: "visit toHast toHtml allow (cs ! i) = Inr (cs' ! i)"
      by (simp add: visitChild_def)
    let ?e = "enclosingGrid (cs ! i) (j # p)"
    from "3.IH" [OF cs v at ins] obtain g q h where
      g: "node_at (cs ! i) ?e = Some g" "isGridTable g" "\<not> insideGrid (cs ! i) ?e"
      and q: "q \<noteq> []" "j # p = ?e @ q"
      and h: "convertGrid toHast toHtml allow g = Inr h" "node_at (cs' ! i) ?e = Some h"
      and none: "node_at (cs' ! i) (j # p) = None" by blast
    have e: "enclosingGrid node (i # j # p) = i # ?e" using cs False by simp
    have ne: "?e \<noteq> []" using g(1,2) False by (cases ?e) auto
    have "node_at node (i # ?e) = Some g" using cs i g(1) by simp
    moreover have "\<not> insideGrid node (i # ?e)"
      using cs i g(3) False ne by (cases ?e) auto
    moreover have "i # j # p = (i # ?e) @ q" using q(2) by simp
    moreover have "node_at n' (i # ?e) = Some h" using cs' len i h(2) by simp
    moreover have "node_at n' (i # j # p) = None" using cs' len i none by simp
    ultimately show ?thesis unfolding e using g(2) q(1) h(1) by blast
  qed
qed

lemma visit_unchanged:
  "isParent n \<Longrightarrow> \<not> containsGrid n \<Longrightarrow> visit toHast toHtml allow n = Inr n"
proof (induction toHast toHtml allow n rule: visit.induct)
  case (1 toHast toHtml allow ty dty cw v)
  then show ?case by (simp add: isParent_def)
next
  case (2 toHast toHtml allow ty dty cw cs v)
  have "\<forall>x\<in>set cs. visitChild toHast toHtml allow x = Inr x"
  proof
    fix x assume x: "x \<in> set cs"
    with "2.prems"(2) have ng: "\<not> isGridTable x" and nc: "\<not> containsGrid x"
      by (auto simp: list_ex_iff)
    show "visitChild toHast toHtml allow x = Inr x"
    proof (cases "isParent x")
      case True
      from "2.IH" [OF x ng True True nc] ng True show ?thesis by (simp add: visitChild_def)
    next
      case False
      with ng show ?thesis by (simp add: visitChild_def)
    qed
  qed
  then have "sequence (map (visitChild toHast toHtml allow) cs) = Inr cs"
    by (rule sequence_map_id)
  then show ?case by (simp add: visitChild_def [abs_def])
qed

lemma containsGrid_iff:
  "containsGrid n \<longleftrightarrow> (\<exists>p c. p \<noteq> [] \<and> node_at n p = Some c \<and> isGridTable c)"
proof
  assume "containsGrid n"
  then show "\<exists>p c. p \<noteq> [] \<and> node_at n p = Some c \<and> isGridTable c"
  proof (induction n rule: containsGrid.induct)
    case (1 ty dty cw cs v)
    from "1.prems" obtain cs' x where cs: "cs = Some cs'" and x: "x \<in> set cs'"
      and d: "isGridTable x \<or> containsGrid x"
      by (auto simp: list_ex_iff split: option.splits)
    from x obtain i where i: "i < length cs'" and xi: "x = cs' ! i"
      by (auto simp: in_set_conv_nth)
    show ?case
    proof (cases "isGridTable x")
      case True
      have "node_at (MdNode ty dty cw cs v) [i] = Some x" using cs i xi by simp
      with True show ?thesis by blast
    next
      case False
      with d have "containsGrid x" by simp
      from "1.IH" [OF cs x this] obtain p c where "p \<noteq> []"
        and "node_at x p = Some c" and "isGridTable c" by blast
      then have "node_at (MdNode ty dty cw cs v) (i # p) = Some c" using cs i xi by simp
      with \<open>isGridTable c\<close> show ?thesis by blast
    qed
  qed
next
  assume "\<exists>p c. p \<noteq> [] \<and> node_at n p = Some c \<and> isGridTable c"
  then obtain p c where p: "p \<noteq> []" and at: "node_at n p = Some c" and g: "isGridTable c"
    by blast
  from p at show "containsGrid n"
  proof (induction p arbitrary: n)
    case Nil
    then show ?case by simp
  next
    case (Cons i p)
    from Cons.prems(2) obtain cs where cs: "children n = Some cs" and i: "i < length cs"
      and at': "node_at (cs ! i) p = Some c"
      by (auto split: option.splits if_splits)
    have "isGridTable (cs ! i) \<or> containsGrid (cs ! i)"
    proof (cases p)
      case Nil
      with at' g show ?thesis by simp
    next
      case (Cons j q)
      with Cons.IH [OF _ at'] show ?thesis by simp
    qed
    with cs i show ?case by (cases n) (auto simp: list_ex_iff)
  qed
qed

subsection \<open>Searching and changing the presentational tree\<close>

definition isTableElement :: "hast \<Rightarrow> bool" where
  "isTableElement node = (htype node = ''element'' \<and> tagName node = Some ''table'')"

lemma findTableElement_simps':
  "findTableElement node =
     (if isTableElement node then Some []
      else (case hchildren node of None \<Rightarrow> None | Some cs \<Rightarrow> findTableElement_loop 0 cs))"
  by (cases node) (simp add: isTableElement_def)

lemma findTableElement_loop_found:
  "findTableElement_loop i cs = Some q \<Longrightarrow>
     \<exists>k p. q = (i + k) # p \<and> k < length cs \<and> findTableElement (cs ! k) = Some p
       \<and> (\<forall>k'<k. findTableElement (cs ! k') = None)"
proof (induction cs arbitrary: i)
  case Nil
  then show ?case by simp
next
  case (Cons c cs)
  show ?case
  proof (cases "findTableElement c")
    case (Some p)
    with Cons.prems have "q = (i + 0) # p" by simp
    with Some show ?thesis by (intro exI [of _ 0] exI [of _ p]) simp
  next
    case None
    with Cons.prems have "findTableElement_loop (Suc i) cs = Some q" by simp
    from Cons.IH [OF this] obtain k p where q: "q = (Suc i + k) # p" and k: "k < length cs"
      and f: "findTableElement (cs ! k) = Some p"
      and b: "\<forall>k'<k. findTableElement (cs ! k') = None" by blast
    have "\<forall>k'<Suc k. findTableElement ((c # cs) ! k') = None"
      using None b by (auto simp: nth_Cons split: nat.splits)
    with q k f show ?thesis by (intro exI [of _ "Suc k"] exI [of _ p]) simp
  qed
qed

lemma findTableElement_loop_none:
  "findTableElement_loop i cs = None \<Longrightarrow> \<forall>k<length cs. findTableElement (cs ! k) = None"
proof (induction cs arbitrary: i)
  case Nil
  then show ?case by simp
next
  case (Cons c cs)
  then show ?case by (auto simp: nth_Cons split: option.splits nat.splits)
qed

lemma findTableElement_at:
  "findTableElement node = Some p \<Longrightarrow> \<exists>t. hast_at node p = Some t \<and> isTableElement t"
proof (induction p arbitrary: node)
  case Nil
  then show ?case
    using findTableElement_loop_found
    by (auto simp: findTableElement_simps' split: if_splits option.splits)
next
  case (Cons j p)
  from Cons.prems obtain cs where nt: "\<not> isTableElement node" and cs: "hchildren node = Some cs"
    and l: "findTableElement_loop 0 cs = Some (j # p)"
    by (auto simp: findTableElement_simps' split: if_splits option.splits)
  from findTableElement_loop_found [OF l] have j: "j < length cs"
    and f: "findTableElement (cs ! j) = Some p" by auto
  from Cons.IH [OF f] cs j show ?case by simp
qed

lemma findTableElement_none:
  "findTableElement node = None \<Longrightarrow> hast_at node p = Some t \<Longrightarrow> \<not> isTableElement t"
proof (induction p arbitrary: node)
  case Nil
  then show ?case by (auto simp: findTableElement_simps' split: if_splits)
next
  case (Cons j p)
  from Cons.prems(2) obtain cs where cs: "hchildren node = Some cs" and j: "j < length cs"
    and at: "hast_at (cs ! j) p = Some t"
    by (auto split: option.splits if_splits)
  from Cons.prems(1) cs have "findTableElement_loop 0 cs = None"
    by (auto simp: findTableElement_simps' split: if_splits)
  from findTableElement_loop_none [OF this] j have "findTableElement (cs ! j) = None" by simp
  from Cons.IH [OF this at] show ?case .
qed

lemma hast_update_at:
  "hast_at node p = Some t \<Longrightarrow> hast_at (hast_update node p f) p = Some (f t)"
proof (induction p arbitrary: node)
  case Nil
  then show ?case by simp
next
  case (Cons j p)
  from Cons.prems obtain cs where cs: "hchildren node = Some cs" and j: "j < length cs"
    and at: "hast_at (cs ! j) p = Some t"
    by (auto split: option.splits if_splits)
  from Cons.IH [OF at] cs j show ?case by simp
qed

text \<open>Positions that are neither below nor above the changed one keep their node.\<close>
lemma hast_update_other:
  "\<not> prefix p q \<Longrightarrow> \<not> prefix q p \<Longrightarrow> hast_at (hast_update node p f) q = hast_at node q"
proof (induction p arbitrary: node q)
  case Nil
  then show ?case by simp
next
  case (Cons j p)
  from Cons.prems(2) obtain k q' where q: "q = k # q'" by (cases q) auto
  show ?case
  proof (cases "hchildren node")
    case None
    then show ?thesis by simp
  next
    case (Some cs)
    show ?thesis
    proof (cases "j < length cs")
      case False
      with Some show ?thesis by simp
    next
      case True
      show ?thesis
      proof (cases "k = j")
        case False
        with Some True q show ?thesis by simp
      next
        case eq: True
        with Cons.prems q have "\<not> prefix p q'" "\<not> prefix q' p" by simp_all
        from Cons.IH [OF this] Some True q eq show ?thesis by simp
      qed
    qed
  qed
qed

lemma extractColumnWidths_cases:
  "extractColumnWidths t =
     (case data_colWidths t of
        None \<Rightarrow> Inr None
      | Some ws \<Rightarrow>
          if ws = [] then Inr None
          else (case children t of
                  None \<Rightarrow> Inl TypeError
                | Some rows \<Rightarrow>
                    if rows = [] then Inr None
                    else (case children (hd rows) of
                            None \<Rightarrow> Inl TypeError
                          | Some cells \<Rightarrow>
                              if length ws \<noteq> length cells then Inr None
                              else Inr (Some (map (\<lambda>w. normalizeWidthValue (String w)) ws)))))"
  by (auto simp: extractColumnWidths_def Let_def hd_conv_nth split: option.splits)

subsection \<open>Tables of the declared shape\<close>

text \<open>The shape that the type \<^verbatim>\<open>mdast.Table\<close> promises: a child array, whose first entry, if
  there is one, has a child array.\<close>
definition tableShaped :: "mdnode \<Rightarrow> bool" where
  "tableShaped t =
     (case children t of
        None \<Rightarrow> False
      | Some rows \<Rightarrow> rows = [] \<or> children (hd rows) \<noteq> None)"

text \<open>Every grid table that the traversal reaches has that shape.\<close>
fun gridsTableShaped :: "mdnode \<Rightarrow> bool" where
  "gridsTableShaped (MdNode ty dty cw cs v) =
     (case cs of
        None \<Rightarrow> True
      | Some cs' \<Rightarrow>
          list_all (\<lambda>child. if isGridTable child then tableShaped child
                            else gridsTableShaped child) cs')"

lemma extractColumnWidths_shaped:
  "tableShaped t \<Longrightarrow> \<exists>r. extractColumnWidths t = Inr r"
  by (auto simp: extractColumnWidths_cases tableShaped_def split: option.splits)

lemma convertGrid_total:
  "tableShaped t \<Longrightarrow> \<exists>v. convertGrid toHast toHtml allow t = Inr (html v)"
proof -
  assume "tableShaped t"
  from extractColumnWidths_shaped [OF this] obtain r where "extractColumnWidths t = Inr r" ..
  then show ?thesis by (auto simp: convertGrid_def Let_def)
qed

lemma convertGrid_plain:
  "extractColumnWidths t = Inr None \<Longrightarrow>
     convertGrid toHast toHtml allow t = Inr (html (toHtml (toHast t allow) allow))"
  by (simp add: convertGrid_def Let_def split: option.splits)

lemma convertGrid_no_table:
  "extractColumnWidths t = Inr r \<Longrightarrow> findTableElement (toHast t allow) = None \<Longrightarrow>
     convertGrid toHast toHtml allow t = Inr (html (toHtml (toHast t allow) allow))"
  by (simp add: convertGrid_def Let_def)

lemma convertGrid_colgroup:
  "extractColumnWidths t = Inr (Some ws) \<Longrightarrow> findTableElement (toHast t allow) = Some p \<Longrightarrow>
     convertGrid toHast toHtml allow t =
       Inr (html (toHtml (hast_update (toHast t allow) p (prependChild (colgroup ws))) allow))"
  by (simp add: convertGrid_def Let_def)

lemma visit_total:
  "isParent n \<Longrightarrow> gridsTableShaped n \<Longrightarrow> \<exists>n'. visit toHast toHtml allow n = Inr n'"
proof (induction toHast toHtml allow n rule: visit.induct)
  case (1 toHast toHtml allow ty dty cw v)
  then show ?case by (simp add: isParent_def)
next
  case (2 toHast toHtml allow ty dty cw cs v)
  have "\<forall>x\<in>set (map (visitChild toHast toHtml allow) cs). \<exists>y. x = Inr y"
  proof
    fix x assume "x \<in> set (map (visitChild toHast toHtml allow) cs)"
    then obtain c where c: "c \<in> set cs" and x: "x = visitChild toHast toHtml allow c" by auto
    from "2.prems"(2) c have sh: "if isGridTable c then tableShaped c else gridsTableShaped c"
      by (simp add: list_all_iff)
    show "\<exists>y. x = Inr y"
    proof (cases "isGridTable c")
      case True
      with sh have "tableShaped c" by simp
      from convertGrid_total [OF this, of toHast toHtml allow] True x show ?thesis
        by (auto simp: visitChild_def)
    next
      case False
      show ?thesis
      proof (cases "isParent c")
        case True
        from sh False have "gridsTableShaped c" by simp
        from "2.IH" [OF c False True True this] False True x show ?thesis
          by (simp add: visitChild_def)
      next
        case np: False
        with False x show ?thesis by (simp add: visitChild_def)
      qed
    qed
  qed
  from sequence_all_Inr [OF this] obtain ys
    where "sequence (map (visitChild toHast toHtml allow) cs) = Inr ys" ..
  then show ?case by (simp add: visitChild_def [abs_def])
qed

lemma insideGrid_intro:
  "q \<noteq> [] \<Longrightarrow> r \<noteq> [] \<Longrightarrow> node_at n q = Some g \<Longrightarrow> isGridTable g \<Longrightarrow>
     insideGrid n (q @ r)"
proof (induction q arbitrary: n)
  case Nil
  then show ?case by simp
next
  case (Cons i q)
  from Cons.prems(3) obtain cs where cs: "children n = Some cs" and i: "i < length cs"
    and at: "node_at (cs ! i) q = Some g"
    by (auto split: option.splits if_splits)
  show ?case
  proof (cases q)
    case Nil
    with at have "cs ! i = g" by simp
    with Nil cs i Cons.prems(2,4) show ?thesis by (cases r) auto
  next
    case (Cons j q')
    with Cons.IH [OF _ Cons.prems(2) at Cons.prems(4)] have "insideGrid (cs ! i) (q @ r)"
      by simp
    with Cons cs i show ?thesis by simp
  qed
qed

lemma insideGrid_elim:
  "insideGrid n p \<Longrightarrow>
     \<exists>q r g. p = q @ r \<and> q \<noteq> [] \<and> r \<noteq> [] \<and> node_at n q = Some g \<and> isGridTable g"
proof (induction n p rule: insideGrid.induct)
  case (1 node)
  then show ?case by simp
next
  case (2 node i)
  then show ?case by simp
next
  case (3 node i j p)
  from "3.prems" obtain cs where cs: "children node = Some cs" and i: "i < length cs"
    and d: "isGridTable (cs ! i) \<or> insideGrid (cs ! i) (j # p)"
    by (auto split: option.splits)
  show ?case
  proof (cases "isGridTable (cs ! i)")
    case True
    have "i # j # p = [i] @ (j # p)" by simp
    moreover have "node_at node [i] = Some (cs ! i)" using cs i by simp
    ultimately show ?thesis using True by blast
  next
    case False
    with d have "insideGrid (cs ! i) (j # p)" by simp
    from "3.IH" [OF cs this] obtain q r g where p: "j # p = q @ r" and q: "q \<noteq> []"
      and r: "r \<noteq> []" and at: "node_at (cs ! i) q = Some g" and g: "isGridTable g"
      by blast
    have "i # j # p = (i # q) @ r" using p by simp
    moreover have "node_at node (i # q) = Some g" using cs i at by simp
    ultimately show ?thesis using r g by blast
  qed
qed

lemma insideGrid_iff:
  "insideGrid n p \<longleftrightarrow>
     (\<exists>q r g. p = q @ r \<and> q \<noteq> [] \<and> r \<noteq> [] \<and> node_at n q = Some g \<and> isGridTable g)"
proof
  assume "insideGrid n p"
  then show "\<exists>q r g. p = q @ r \<and> q \<noteq> [] \<and> r \<noteq> [] \<and> node_at n q = Some g \<and> isGridTable g"
    by (rule insideGrid_elim)
next
  assume "\<exists>q r g. p = q @ r \<and> q \<noteq> [] \<and> r \<noteq> [] \<and> node_at n q = Some g \<and> isGridTable g"
  then obtain q r g where "p = q @ r" "q \<noteq> []" "r \<noteq> []" "node_at n q = Some g"
    "isGridTable g" by blast
  then show "insideGrid n p" using insideGrid_intro [of q r n g] by simp
qed

subsection \<open>Concrete trees\<close>

text \<open>Stand-ins for the two library functions, for concrete runs: the first gives every node
  the same presentational tree, a root with one table element; the second prints tag names
  and properties.\<close>

definition sampleToHast :: "mdnode \<Rightarrow> bool \<Rightarrow> hast" where
  "sampleToHast node allowDangerousHtml =
     HastNode ''root'' None None
       (Some [HastNode ''element'' (Some ''table'') None
                (Some [HastNode ''element'' (Some ''tbody'') None (Some [])])])"

fun sampleToHtml :: "hast \<Rightarrow> bool \<Rightarrow> string" where
  "sampleToHtml (HastNode ty tag props cs) allowDangerousHtml =
     ''<'' @ (case tag of None \<Rightarrow> ty | Some t \<Rightarrow> t)
       @ (case props of None \<Rightarrow> [] | Some ps \<Rightarrow> concat (map (\<lambda>(k, v). '' '' @ k @ ''='' @ v) ps))
       @ ''>''
       @ (case cs of None \<Rightarrow> []
          | Some cs' \<Rightarrow> concat (map (\<lambda>c. sampleToHtml c allowDangerousHtml) cs'))"

definition innerGrid :: mdnode where
  "innerGrid = MdNode ''table'' (Some ''grid'') None (Some []) None"

definition outerGrid :: mdnode where
  "outerGrid =
     MdNode ''table'' (Some ''grid'') None
       (Some [MdNode ''tableRow'' None None
                (Some [MdNode ''tableCell'' None None (Some [innerGrid]) None]) None]) None"

definition plainTable :: mdnode where
  "plainTable =
     MdNode ''table'' None None
       (Some [MdNode ''tableRow'' None None
                (Some [MdNode ''tableCell'' None None (Some [innerGrid]) None]) None]) None"

definition twoColumnGrid :: "jsnum list \<Rightarrow> mdnode" where
  "twoColumnGrid widths =
     MdNode ''table'' (Some ''grid'') (Some widths)
       (Some [MdNode ''tableRow'' None None
                (Some [MdNode ''tableCell'' None None (Some []) None,
                       MdNode ''tableCell'' None None (Some []) None]) None]) None"

definition rootOf :: "mdnode list \<Rightarrow> mdnode" where
  "rootOf cs = MdNode ''root'' None None (Some cs) None"

lemma ex_inner_plain:
  "convertGrid sampleToHast sampleToHtml False innerGrid = Inr (html ''<root><table><tbody>'')"
  by (simp add: convertGrid_def extractColumnWidths_def innerGrid_def sampleToHast_def)

lemma ex_nested:
  "transformGridToHtml sampleToHast sampleToHtml (rootOf [outerGrid]) False
     = Inr (rootOf [html ''<root><table><tbody>''])"
  by (simp add: transformGridToHtml_def rootOf_def outerGrid_def isGridTable_def
        convertGrid_def extractColumnWidths_def sampleToHast_def)

lemma ex_in_plain:
  "transformGridToHtml sampleToHast sampleToHtml (rootOf [plainTable]) False
     = Inr (rootOf [MdNode ''table'' None None
       (Some [MdNode ''tableRow'' None None
                (Some [MdNode ''tableCell'' None None (Some [html ''<root><table><tbody>'']) None])
                None]) None])"
  by (simp add: transformGridToHtml_def rootOf_def plainTable_def isGridTable_def isParent_def
        innerGrid_def convertGrid_def extractColumnWidths_def sampleToHast_def)

lemma ex_widths:
  "extractColumnWidths (twoColumnGrid [Fin (1 / 2), Fin (1 / 2)]) = Inr (Some [''50%'', ''50%''])"
  by (simp add: extractColumnWidths_def twoColumnGrid_def String_half normalize_half)

lemma ex_mismatch:
  "extractColumnWidths (twoColumnGrid [Fin 1, Fin 1, Fin 1]) = Inr None"
  by (simp add: extractColumnWidths_def twoColumnGrid_def)

lemma ex_find: "findTableElement (sampleToHast n a) = Some [0]"
  by (simp add: sampleToHast_def)

lemma ex_colgroup:
  "convertGrid sampleToHast sampleToHtml False (twoColumnGrid [Fin (1 / 2), Fin (1 / 2)])
     = Inr (html ''<root><table><colgroup><col style=width: 50%><col style=width: 50%><tbody>'')"
  by (simp add: convertGrid_colgroup [OF ex_widths ex_find])
     (simp add: sampleToHast_def prependChild_def colgroup_def col_def)

text \<open>Document order of positions: a node comes before the nodes below it and before the
  nodes at and below the later siblings of its ancestors and of itself.\<close>
fun pathBefore :: "nat list \<Rightarrow> nat list \<Rightarrow> bool" where
  "pathBefore [] q = True"
| "pathBefore (i # p) [] = False"
| "pathBefore (i # p) (j # q) = (i < j \<or> (i = j \<and> pathBefore p q))"

lemma findTableElement_first:
  "findTableElement node = Some p \<Longrightarrow> hast_at node q = Some t \<Longrightarrow> isTableElement t \<Longrightarrow>
     pathBefore p q"
proof (induction p arbitrary: node q)
  case Nil
  then show ?case by simp
next
  case (Cons i p)
  from Cons.prems(1) obtain cs where nt: "\<not> isTableElement node" and cs: "hchildren node = Some cs"
    and l: "findTableElement_loop 0 cs = Some (i # p)"
    by (auto simp: findTableElement_simps' split: if_splits option.splits)
  from findTableElement_loop_found [OF l] have i: "i < length cs"
    and f: "findTableElement (cs ! i) = Some p"
    and b: "\<forall>k<i. findTableElement (cs ! k) = None" by auto
  show ?case
  proof (cases q)
    case Nil
    with Cons.prems(2,3) nt show ?thesis by simp
  next
    case q: (Cons j q')
    with Cons.prems(2) cs have j: "j < length cs" and at: "hast_at (cs ! j) q' = Some t"
      by (auto split: if_splits)
    show ?thesis
    proof (cases "j < i")
      case True
      with b have "findTableElement (cs ! j) = None" by simp
      from findTableElement_none [OF this at] Cons.prems(3) show ?thesis by simp
    next
      case False
      show ?thesis
      proof (cases "j = i")
        case True
        with Cons.IH [OF f _ Cons.prems(3)] at q show ?thesis by simp
      next
        case ne: False
        with False q show ?thesis by simp
      qed
    qed
  qed
qed

lemma colgroup_expand:
  "colgroup ws =
     HastNode ''element'' (Some ''colgroup'') None
       (Some (map (\<lambda>w. HastNode ''element'' (Some ''col'')
                          (Some [(''style'', ''width: '' @ w)]) (Some [])) ws))"
  by (simp add: colgroup_def col_def [abs_def])

lemma extractColumnWidths_Some:
  "extractColumnWidths t = Inr (Some ws) \<Longrightarrow>
     \<exists>colWidths. data_colWidths t = Some colWidths
        \<and> ws = map (\<lambda>w. normalizeWidthValue (String w)) colWidths"
  by (auto simp: extractColumnWidths_cases split: option.splits if_splits)

subsection \<open>The claims about the grid table rewriter\<close>

text \<open>
  C4. \<^verbatim>\<open>normalizeWidthValue\<close> returns its argument unchanged when it contains a percent sign
  or a letter, and also when it contains any character that is none of digit, point, sign and
  white space (such a string does not parse to a number); of the remaining strings, one that
  does not parse to a finite number is returned unchanged, a number up to 1 gives the number
  times 100 followed by a percent sign, and a number above 1 gives the number followed by
  \<^verbatim>\<open>px\<close>. In particular \<^verbatim>\<open>0.5\<close> gives \<^verbatim>\<open>50%\<close>, \<^verbatim>\<open>300\<close> gives \<^verbatim>\<open>300px\<close>, and
  \<^verbatim>\<open>50%\<close> and \<^verbatim>\<open>auto\<close> are unchanged.
\<close>

theorem normalizeWidthValue_cases:
  "(CHR ''%'' \<in> set v \<or> list_ex isAsciiLetter v \<longrightarrow> normalizeWidthValue v = v)
   \<and> (c \<in> set v \<and> \<not> isNumericChar c \<longrightarrow> normalizeWidthValue v = v)
   \<and> (CHR ''%'' \<notin> set v \<and> \<not> list_ex isAsciiLetter v \<and> \<not> isFinite (Number v) \<longrightarrow>
         normalizeWidthValue v = v)
   \<and> (CHR ''%'' \<notin> set v \<and> \<not> list_ex isAsciiLetter v \<and> Number v = Fin x \<and> x \<le> 1 \<longrightarrow>
         normalizeWidthValue v = String (round_to_double (x * 100)) @ ''%'')
   \<and> (CHR ''%'' \<notin> set v \<and> \<not> list_ex isAsciiLetter v \<and> Number v = Fin x \<and> 1 < x \<longrightarrow>
         normalizeWidthValue v = String (Fin x) @ ''px'')
   \<and> normalizeWidthValue ''0.5'' = ''50%''
   \<and> normalizeWidthValue ''300'' = ''300px''
   \<and> normalizeWidthValue ''50%'' = ''50%''
   \<and> normalizeWidthValue ''auto'' = ''auto''"
proof (intro conjI impI)
  assume "CHR ''%'' \<in> set v \<or> list_ex isAsciiLetter v"
  then show "normalizeWidthValue v = v" by (auto simp: normalizeWidthValue_def)
next
  assume "c \<in> set v \<and> \<not> isNumericChar c"
  then show "normalizeWidthValue v = v" using normalizeWidthValue_stray [of c v] by simp
next
  assume "CHR ''%'' \<notin> set v \<and> \<not> list_ex isAsciiLetter v \<and> \<not> isFinite (Number v)"
  then show "normalizeWidthValue v = v" by (simp add: normalizeWidthValue_def)
next
  assume "CHR ''%'' \<notin> set v \<and> \<not> list_ex isAsciiLetter v \<and> Number v = Fin x \<and> x \<le> 1"
  then show "normalizeWidthValue v = String (round_to_double (x * 100)) @ ''%''"
    by (simp add: normalizeWidthValue_def isFinite_def js_le_def js_times_def)
next
  assume "CHR ''%'' \<notin> set v \<and> \<not> list_ex isAsciiLetter v \<and> Number v = Fin x \<and> 1 < x"
  then show "normalizeWidthValue v = String (Fin x) @ ''px''"
    by (simp add: normalizeWidthValue_def isFinite_def js_le_def)
next
  show "normalizeWidthValue ''0.5'' = ''50%''" by (rule normalize_half)
  show "normalizeWidthValue ''300'' = ''300px''" by (rule normalize_300)
  show "normalizeWidthValue ''50%'' = ''50%''" by (simp add: normalizeWidthValue_def)
  show "normalizeWidthValue ''auto'' = ''auto''"
    by (simp add: normalizeWidthValue_def isAsciiLetter_def)
qed

theorem normalizeWidthValue_cases_witness:
  "list_ex isAsciiLetter ''12px'' \<and> normalizeWidthValue ''12px'' = ''12px''
   \<and> CHR ''#'' \<in> set ''#1'' \<and> \<not> isNumericChar (CHR ''#'') \<and> normalizeWidthValue ''#1'' = ''#1''
   \<and> CHR ''%'' \<notin> set ''1.2.3'' \<and> \<not> list_ex isAsciiLetter ''1.2.3''
   \<and> \<not> isFinite (Number ''1.2.3'') \<and> normalizeWidthValue ''1.2.3'' = ''1.2.3''
   \<and> CHR ''%'' \<notin> set ''0.25'' \<and> \<not> list_ex isAsciiLetter ''0.25''
   \<and> Number ''0.25'' = Fin (1 / 4) \<and> (1 / 4 :: rat) \<le> 1
   \<and> normalizeWidthValue ''0.25'' = String (round_to_double (1 / 4 * 100)) @ ''%''
   \<and> CHR ''%'' \<notin> set ''1.5'' \<and> \<not> list_ex isAsciiLetter ''1.5''
   \<and> Number ''1.5'' = Fin (3 / 2) \<and> (1 :: rat) < 3 / 2
   \<and> normalizeWidthValue ''1.5'' = String (Fin (3 / 2)) @ ''px''"
proof -
  have l: "list_ex isAsciiLetter ''12px''" by (simp add: isAsciiLetter_def)
  have s: "CHR ''#'' \<in> set ''#1''" "\<not> isNumericChar (CHR ''#'')"
    by (simp_all add: isNumericChar_def isDigit_def isWhiteSpace_def)
  have n1: "CHR ''%'' \<notin> set ''1.2.3''" "\<not> list_ex isAsciiLetter ''1.2.3''"
    by (simp_all add: isAsciiLetter_def)
  have n2: "Number ''1.2.3'' = NaN" by code_simp
  have q1: "CHR ''%'' \<notin> set ''0.25''" "\<not> list_ex isAsciiLetter ''0.25''"
    by (simp_all add: isAsciiLetter_def)
  have q2: "Number ''0.25'' = Fin (1 / 4)" by code_simp
  have p1: "CHR ''%'' \<notin> set ''1.5''" "\<not> list_ex isAsciiLetter ''1.5''"
    by (simp_all add: isAsciiLetter_def)
  have p2: "Number ''1.5'' = Fin (3 / 2)" by code_simp
  from normalizeWidthValue_cases [of "''12px''"] l
  have a: "normalizeWidthValue ''12px'' = ''12px''" by blast
  from normalizeWidthValue_cases [of "''#1''" "CHR ''#''"] s
  have b: "normalizeWidthValue ''#1'' = ''#1''" by blast
  from normalizeWidthValue_cases [of "''1.2.3''"] n1 n2
  have c: "normalizeWidthValue ''1.2.3'' = ''1.2.3''" by (simp add: isFinite_def)
  from normalizeWidthValue_cases [of "''0.25''" _ "1 / 4"] q1 q2
  have d: "normalizeWidthValue ''0.25'' = String (round_to_double (1 / 4 * 100)) @ ''%''"
    by simp
  from normalizeWidthValue_cases [of "''1.5''" _ "3 / 2"] p1 p2
  have e: "normalizeWidthValue ''1.5'' = String (Fin (3 / 2)) @ ''px''" by simp
  from l s n1 n2 q1 q2 p1 p2 a b c d e show ?thesis by (simp add: isFinite_def)
qed

text \<open>
  C2, as the specification states it, fails: a grid table inside a cell of another grid
  table is reachable through child sequences, and the call leaves no html node at its
  position. The root below holds a grid table whose only cell holds a second grid table, at
  position 0, 0, 0, 0; after the call the root has one html child and nothing below it.
\<close>

theorem reachable_grid_not_replaced:
  "node_at (rootOf [outerGrid]) [0, 0, 0, 0] = Some innerGrid
   \<and> isGridTable innerGrid
   \<and> transformGridToHtml sampleToHast sampleToHtml (rootOf [outerGrid]) False
       = Inr (rootOf [html ''<root><table><tbody>''])
   \<and> node_at (rootOf [html ''<root><table><tbody>'']) [0, 0, 0, 0] = None"
  by (simp add: ex_nested)
     (simp add: rootOf_def outerGrid_def innerGrid_def isGridTable_def html_def)

text \<open>
  C2, amended. For every position below the root that does not lie inside a grid table:
  a grid table there (also one in a cell of a table that is not a grid table) is replaced, at
  the same position, by the one html node its conversion gives; a container there that is not
  a grid table is replaced by its visited copy, which keeps its type, metadata and number of
  children; any other node stays as it is. A root without grid tables is returned unchanged.
\<close>

theorem transformGridToHtml_positions:
  "(transformGridToHtml toHast toHtml r allow = Inr result \<and> node_at r (i # p) = Some c
      \<and> \<not> insideGrid r (i # p) \<longrightarrow>
        (\<exists>c'. node_at result (i # p) = Some c'
           \<and> (isGridTable c \<longrightarrow>
                 (\<exists>v. c' = html v \<and> convertGrid toHast toHtml allow c = Inr (html v)))
           \<and> (\<not> isGridTable c \<longrightarrow>
                 ntype c' = ntype c \<and> data_type c' = data_type c
                 \<and> data_colWidths c' = data_colWidths c \<and> nvalue c' = nvalue c
                 \<and> map_option length (children c') = map_option length (children c))
           \<and> (\<not> isGridTable c \<and> \<not> isParent c \<longrightarrow> c' = c)))
   \<and> (isParent r \<and> \<not> containsGrid r \<longrightarrow> transformGridToHtml toHast toHtml r allow = Inr r)"
proof (intro conjI impI)
  assume a: "transformGridToHtml toHast toHtml r allow = Inr result \<and> node_at r (i # p) = Some c
      \<and> \<not> insideGrid r (i # p)"
  then have v: "visit toHast toHtml allow r = Inr result" by (simp add: transformGridToHtml_def)
  from visit_at [OF v] a obtain c' where at: "node_at result (i # p) = Some c'"
    and vc: "visitChild toHast toHtml allow c = Inr c'" by blast
  have g: "isGridTable c \<longrightarrow>
             (\<exists>v. c' = html v \<and> convertGrid toHast toHtml allow c = Inr (html v))"
  proof
    assume "isGridTable c"
    with vc have conv: "convertGrid toHast toHtml allow c = Inr c'" by (simp add: visitChild_def)
    from convertGrid_Inr [OF conv] conv
    show "\<exists>v. c' = html v \<and> convertGrid toHast toHtml allow c = Inr (html v)" by auto
  qed
  have leaf: "\<not> isGridTable c \<and> \<not> isParent c \<longrightarrow> c' = c"
    using vc by (auto simp: visitChild_def)
  have keep: "\<not> isGridTable c \<longrightarrow>
                 ntype c' = ntype c \<and> data_type c' = data_type c
                 \<and> data_colWidths c' = data_colWidths c \<and> nvalue c' = nvalue c
                 \<and> map_option length (children c') = map_option length (children c)"
  proof
    assume ng: "\<not> isGridTable c"
    show "ntype c' = ntype c \<and> data_type c' = data_type c
                 \<and> data_colWidths c' = data_colWidths c \<and> nvalue c' = nvalue c
                 \<and> map_option length (children c') = map_option length (children c)"
    proof (cases "isParent c")
      case True
      with ng vc have "visit toHast toHtml allow c = Inr c'" by (simp add: visitChild_def)
      from visit_Inr [OF this] show ?thesis by auto
    next
      case False
      with ng leaf show ?thesis by simp
    qed
  qed
  from at g keep leaf
  show "\<exists>c'. node_at result (i # p) = Some c'
           \<and> (isGridTable c \<longrightarrow>
                 (\<exists>v. c' = html v \<and> convertGrid toHast toHtml allow c = Inr (html v)))
           \<and> (\<not> isGridTable c \<longrightarrow>
                 ntype c' = ntype c \<and> data_type c' = data_type c
                 \<and> data_colWidths c' = data_colWidths c \<and> nvalue c' = nvalue c
                 \<and> map_option length (children c') = map_option length (children c))
           \<and> (\<not> isGridTable c \<and> \<not> isParent c \<longrightarrow> c' = c)"
    by blast
next
  assume "isParent r \<and> \<not> containsGrid r"
  then show "transformGridToHtml toHast toHtml r allow = Inr r"
    by (simp add: transformGridToHtml_def visit_unchanged)
qed

theorem transformGridToHtml_positions_witness:
  "transformGridToHtml sampleToHast sampleToHtml (rootOf [plainTable]) False
     = Inr (rootOf [MdNode ''table'' None None
       (Some [MdNode ''tableRow'' None None
                (Some [MdNode ''tableCell'' None None (Some [html ''<root><table><tbody>'']) None])
                None]) None])
   \<and> node_at (rootOf [plainTable]) [0, 0, 0, 0] = Some innerGrid
   \<and> \<not> insideGrid (rootOf [plainTable]) [0, 0, 0, 0]
   \<and> isGridTable innerGrid
   \<and> (\<exists>c'. node_at (rootOf [MdNode ''table'' None None
       (Some [MdNode ''tableRow'' None None
                (Some [MdNode ''tableCell'' None None (Some [html ''<root><table><tbody>'']) None])
                None]) None]) [0, 0, 0, 0] = Some c'
         \<and> (\<exists>v. c' = html v
               \<and> convertGrid sampleToHast sampleToHtml False innerGrid = Inr (html v)))
   \<and> isParent (rootOf [html ''x'']) \<and> \<not> containsGrid (rootOf [html ''x''])
   \<and> transformGridToHtml sampleToHast sampleToHtml (rootOf [html ''x'']) False
       = Inr (rootOf [html ''x''])"
proof -
  let ?r = "rootOf [plainTable]"
  let ?res = "rootOf [MdNode ''table'' None None
       (Some [MdNode ''tableRow'' None None
                (Some [MdNode ''tableCell'' None None (Some [html ''<root><table><tbody>'']) None])
                None]) None]"
  have at: "node_at ?r [0, 0, 0, 0] = Some innerGrid"
    by (simp add: rootOf_def plainTable_def)
  have ni: "\<not> insideGrid ?r [0, 0, 0, 0]"
    by (simp add: rootOf_def plainTable_def isGridTable_def)
  have g: "isGridTable innerGrid" by (simp add: innerGrid_def isGridTable_def)
  have par: "isParent (rootOf [html ''x''])" "\<not> containsGrid (rootOf [html ''x''])"
    by (simp_all add: rootOf_def isParent_def html_def isGridTable_def)
  from transformGridToHtml_positions
         [of sampleToHast sampleToHtml ?r False ?res 0 "[0, 0, 0]" innerGrid]
    ex_in_plain at ni g
  have "\<exists>c'. node_at ?res [0, 0, 0, 0] = Some c'
         \<and> (\<exists>v. c' = html v
               \<and> convertGrid sampleToHast sampleToHtml False innerGrid = Inr (html v))"
    by blast
  moreover from transformGridToHtml_positions
         [of sampleToHast sampleToHtml "rootOf [html ''x'']" False] par
  have "transformGridToHtml sampleToHast sampleToHtml (rootOf [html ''x'']) False
       = Inr (rootOf [html ''x''])" by blast
  ultimately show ?thesis using ex_in_plain at ni g par by blast
qed

text \<open>
  C10. A node that lies inside a grid table, another grid table included, is never visited:
  the outermost grid table above it is converted whole, from the node as it is in the
  original tree, so that the inner table reaches the serializer as a part of the outer one;
  the result holds the html node of the outer table and no node at the inner position.
\<close>

theorem nested_grid_not_visited:
  "transformGridToHtml toHast toHtml r allow = Inr result \<and> node_at r p = Some c
     \<and> insideGrid r p \<longrightarrow>
       (\<exists>g q h. p = enclosingGrid r p @ q \<and> q \<noteq> []
          \<and> node_at r (enclosingGrid r p) = Some g \<and> isGridTable g
          \<and> \<not> insideGrid r (enclosingGrid r p)
          \<and> node_at result (enclosingGrid r p) = Some (html (toHtml h allow))
          \<and> (h = toHast g allow
               \<or> (\<exists>path ws. h = hast_update (toHast g allow) path (prependChild (colgroup ws))))
          \<and> node_at result p = None)"
proof
  assume a: "transformGridToHtml toHast toHtml r allow = Inr result \<and> node_at r p = Some c
     \<and> insideGrid r p"
  then have v: "visit toHast toHtml allow r = Inr result" by (simp add: transformGridToHtml_def)
  from visit_inside [OF v] a obtain g q hn where g: "node_at r (enclosingGrid r p) = Some g"
    "isGridTable g" "\<not> insideGrid r (enclosingGrid r p)"
    and q: "q \<noteq> []" "p = enclosingGrid r p @ q"
    and conv: "convertGrid toHast toHtml allow g = Inr hn"
    and at: "node_at result (enclosingGrid r p) = Some hn"
    and none: "node_at result p = None" by blast
  from conv obtain h where hn: "hn = html (toHtml h allow)"
    and h: "h = toHast g allow
            \<or> (\<exists>path ws. h = hast_update (toHast g allow) path (prependChild (colgroup ws)))"
    by (auto simp: convertGrid_def Let_def split: sum.splits option.splits)
  from g q at none hn h
  show "\<exists>g q h. p = enclosingGrid r p @ q \<and> q \<noteq> []
          \<and> node_at r (enclosingGrid r p) = Some g \<and> isGridTable g
          \<and> \<not> insideGrid r (enclosingGrid r p)
          \<and> node_at result (enclosingGrid r p) = Some (html (toHtml h allow))
          \<and> (h = toHast g allow
               \<or> (\<exists>path ws. h = hast_update (toHast g allow) path (prependChild (colgroup ws))))
          \<and> node_at result p = None"
    by blast
qed

theorem nested_grid_not_visited_witness:
  "transformGridToHtml sampleToHast sampleToHtml (rootOf [outerGrid]) False
     = Inr (rootOf [html ''<root><table><tbody>''])
   \<and> node_at (rootOf [outerGrid]) [0, 0, 0, 0] = Some innerGrid
   \<and> insideGrid (rootOf [outerGrid]) [0, 0, 0, 0]
   \<and> enclosingGrid (rootOf [outerGrid]) [0, 0, 0, 0] = [0]
   \<and> (\<exists>h. node_at (rootOf [html ''<root><table><tbody>'']) [0] = Some (html (sampleToHtml h False)))
   \<and> node_at (rootOf [html ''<root><table><tbody>'']) [0, 0, 0, 0] = None"
proof -
  let ?r = "rootOf [outerGrid]"
  let ?res = "rootOf [html ''<root><table><tbody>'']"
  have at: "node_at ?r [0, 0, 0, 0] = Some innerGrid"
    by (simp add: rootOf_def outerGrid_def)
  have ins: "insideGrid ?r [0, 0, 0, 0]"
    by (simp add: rootOf_def outerGrid_def isGridTable_def)
  have enc: "enclosingGrid ?r [0, 0, 0, 0] = [0]"
    by (simp add: rootOf_def outerGrid_def isGridTable_def)
  from nested_grid_not_visited
         [of sampleToHast sampleToHtml ?r False ?res "[0, 0, 0, 0]" innerGrid]
    ex_nested at ins
  have "\<exists>h. node_at ?res (enclosingGrid ?r [0, 0, 0, 0]) = Some (html (sampleToHtml h False))"
    and "node_at ?res [0, 0, 0, 0] = None" by blast+
  with ex_nested at ins enc show ?thesis by simp
qed

text \<open>
  C6. When the widths of a grid table were extracted and the search of its presentational
  tree finds an element with tag \<^verbatim>\<open>table\<close> (it finds the first one in document order, and
  finds none only if there is none), the tree that is serialized is the presentational tree
  with that one element changed: its children are a new \<^verbatim>\<open>colgroup\<close> element followed by
  all the children it had, in order; the \<^verbatim>\<open>colgroup\<close> has one \<^verbatim>\<open>col\<close> child per
  normalized width, in the order of the widths, each with the style \<^verbatim>\<open>width: \<close> followed
  by the width. Positions beside the changed element are untouched, and the html node built
  from this tree takes the place of the grid table.
\<close>

theorem colgroup_prepended:
  "extractColumnWidths child = Inr (Some ws) \<and> findTableElement (toHast child allow) = Some path
     \<longrightarrow>
     (\<exists>t colWidths.
        hast_at (toHast child allow) path = Some t \<and> isTableElement t
        \<and> (\<forall>q t'. hast_at (toHast child allow) q = Some t' \<and> isTableElement t' \<longrightarrow>
               pathBefore path q)
        \<and> data_colWidths child = Some colWidths
        \<and> ws = map (\<lambda>w. normalizeWidthValue (String w)) colWidths
        \<and> convertGrid toHast toHtml allow child =
             Inr (html (toHtml (hast_update (toHast child allow) path
                                  (prependChild (colgroup ws))) allow))
        \<and> hast_at (hast_update (toHast child allow) path (prependChild (colgroup ws))) path =
             Some (HastNode (htype t) (tagName t) (properties t)
                     (Some (colgroup ws # (case hchildren t of None \<Rightarrow> [] | Some cs \<Rightarrow> cs))))
        \<and> colgroup ws =
             HastNode ''element'' (Some ''colgroup'') None
               (Some (map (\<lambda>w. HastNode ''element'' (Some ''col'')
                                  (Some [(''style'', ''width: '' @ w)]) (Some [])) ws))
        \<and> (\<forall>q. \<not> prefix path q \<and> \<not> prefix q path \<longrightarrow>
               hast_at (hast_update (toHast child allow) path (prependChild (colgroup ws))) q =
               hast_at (toHast child allow) q)
        \<and> (transformGridToHtml toHast toHtml r allow = Inr result
             \<and> node_at r (i # p) = Some child \<and> \<not> insideGrid r (i # p) \<and> isGridTable child
             \<longrightarrow> node_at result (i # p) =
                   Some (html (toHtml (hast_update (toHast child allow) path
                                         (prependChild (colgroup ws))) allow))))"
proof
  assume a: "extractColumnWidths child = Inr (Some ws)
               \<and> findTableElement (toHast child allow) = Some path"
  let ?h = "toHast child allow"
  let ?h' = "hast_update ?h path (prependChild (colgroup ws))"
  from a have ex: "extractColumnWidths child = Inr (Some ws)"
    and fi: "findTableElement ?h = Some path" by simp_all
  from findTableElement_at [OF fi] obtain t where t: "hast_at ?h path = Some t"
    and tt: "isTableElement t" by blast
  from extractColumnWidths_Some [OF ex] obtain colWidths
    where cw: "data_colWidths child = Some colWidths"
      and ws: "ws = map (\<lambda>w. normalizeWidthValue (String w)) colWidths" by blast
  have first: "\<forall>q t'. hast_at ?h q = Some t' \<and> isTableElement t' \<longrightarrow> pathBefore path q"
    using findTableElement_first [OF fi] by blast
  have conv: "convertGrid toHast toHtml allow child = Inr (html (toHtml ?h' allow))"
    using ex fi by (rule convertGrid_colgroup)
  have upd: "hast_at ?h' path =
             Some (HastNode (htype t) (tagName t) (properties t)
                     (Some (colgroup ws # (case hchildren t of None \<Rightarrow> [] | Some cs \<Rightarrow> cs))))"
    using hast_update_at [OF t, of "prependChild (colgroup ws)"] by (simp add: prependChild_def)
  have other: "\<forall>q. \<not> prefix path q \<and> \<not> prefix q path \<longrightarrow> hast_at ?h' q = hast_at ?h q"
    using hast_update_other by blast
  have whole: "transformGridToHtml toHast toHtml r allow = Inr result
             \<and> node_at r (i # p) = Some child \<and> \<not> insideGrid r (i # p) \<and> isGridTable child
             \<longrightarrow> node_at result (i # p) = Some (html (toHtml ?h' allow))"
  proof
    assume b: "transformGridToHtml toHast toHtml r allow = Inr result
             \<and> node_at r (i # p) = Some child \<and> \<not> insideGrid r (i # p) \<and> isGridTable child"
    then have v: "visit toHast toHtml allow r = Inr result"
      by (simp add: transformGridToHtml_def)
    from visit_at [OF v] b obtain c' where "node_at result (i # p) = Some c'"
      and "visitChild toHast toHtml allow child = Inr c'" by blast
    with b conv show "node_at result (i # p) = Some (html (toHtml ?h' allow))"
      by (simp add: visitChild_def)
  qed
  from t tt first cw ws conv upd colgroup_expand [of ws] other whole
  show "\<exists>t colWidths.
        hast_at ?h path = Some t \<and> isTableElement t
        \<and> (\<forall>q t'. hast_at ?h q = Some t' \<and> isTableElement t' \<longrightarrow> pathBefore path q)
        \<and> data_colWidths child = Some colWidths
        \<and> ws = map (\<lambda>w. normalizeWidthValue (String w)) colWidths
        \<and> convertGrid toHast toHtml allow child = Inr (html (toHtml ?h' allow))
        \<and> hast_at ?h' path =
             Some (HastNode (htype t) (tagName t) (properties t)
                     (Some (colgroup ws # (case hchildren t of None \<Rightarrow> [] | Some cs \<Rightarrow> cs))))
        \<and> colgroup ws =
             HastNode ''element'' (Some ''colgroup'') None
               (Some (map (\<lambda>w. HastNode ''element'' (Some ''col'')
                                  (Some [(''style'', ''width: '' @ w)]) (Some [])) ws))
        \<and> (\<forall>q. \<not> prefix path q \<and> \<not> prefix q path \<longrightarrow> hast_at ?h' q = hast_at ?h q)
        \<and> (transformGridToHtml toHast toHtml r allow = Inr result
             \<and> node_at r (i # p) = Some child \<and> \<not> insideGrid r (i # p) \<and> isGridTable child
             \<longrightarrow> node_at result (i # p) = Some (html (toHtml ?h' allow)))"
    by blast
qed

theorem colgroup_prepended_witness:
  "extractColumnWidths (twoColumnGrid [Fin (1 / 2), Fin (1 / 2)]) = Inr (Some [''50%'', ''50%''])
   \<and> findTableElement (sampleToHast (twoColumnGrid [Fin (1 / 2), Fin (1 / 2)]) False) = Some [0]
   \<and> convertGrid sampleToHast sampleToHtml False (twoColumnGrid [Fin (1 / 2), Fin (1 / 2)])
       = Inr (html ''<root><table><colgroup><col style=width: 50%><col style=width: 50%><tbody>'')
   \<and> hast_at (hast_update (sampleToHast (twoColumnGrid [Fin (1 / 2), Fin (1 / 2)]) False) [0]
                (prependChild (colgroup [''50%'', ''50%'']))) [0]
       = Some (HastNode ''element'' (Some ''table'') None
                 (Some [colgroup [''50%'', ''50%''],
                        HastNode ''element'' (Some ''tbody'') None (Some [])]))"
proof -
  let ?g = "twoColumnGrid [Fin (1 / 2), Fin (1 / 2)]"
  have at: "hast_at (sampleToHast ?g False) [0]
              = Some (HastNode ''element'' (Some ''table'') None
                        (Some [HastNode ''element'' (Some ''tbody'') None (Some [])]))"
    by (simp add: sampleToHast_def)
  from colgroup_prepended [of ?g "[''50%'', ''50%'']" sampleToHast False "[0]" sampleToHtml]
    ex_widths ex_find [of ?g False]
  obtain t where t1: "hast_at (sampleToHast ?g False) [0] = Some t"
    and t2: "hast_at (hast_update (sampleToHast ?g False) [0]
                    (prependChild (colgroup [''50%'', ''50%'']))) [0] =
             Some (HastNode (htype t) (tagName t) (properties t)
                     (Some (colgroup [''50%'', ''50%'']
                              # (case hchildren t of None \<Rightarrow> [] | Some cs \<Rightarrow> cs))))"
    by blast
  from t1 [unfolded at] have teq: "t = HastNode ''element'' (Some ''table'') None
                        (Some [HastNode ''element'' (Some ''tbody'') None (Some [])])"
    by simp
  have "hast_at (hast_update (sampleToHast ?g False) [0]
                (prependChild (colgroup [''50%'', ''50%'']))) [0]
       = Some (HastNode ''element'' (Some ''table'') None
                 (Some [colgroup [''50%'', ''50%''],
                        HastNode ''element'' (Some ''tbody'') None (Some [])]))"
    unfolding t2 teq by simp
  with ex_widths ex_find [of ?g False] ex_colgroup show ?thesis by simp
qed

text \<open>
  C7. For a node of the shape of a table, width extraction gives no widths exactly when the
  metadata has no \<^verbatim>\<open>colWidths\<close>, or an empty one, or the table has no rows, or the number
  of widths differs from the number of cells of the first row. Extraction never fails on
  such a node, so the conversion always yields an html node; without widths that node holds
  the serialized presentational tree as the library built it, with no \<^verbatim>\<open>colgroup\<close> added,
  and it takes the place of the grid table. A tree whose grid tables all have that shape
  is converted without an error.
\<close>

theorem width_extraction_absent:
  "(tableShaped t \<longrightarrow>
      (extractColumnWidths t = Inr None) =
        (data_colWidths t = None \<or> data_colWidths t = Some [] \<or> children t = Some []
         \<or> (\<exists>ws rows cells. data_colWidths t = Some ws \<and> children t = Some rows \<and> rows \<noteq> []
               \<and> children (rows ! 0) = Some cells \<and> length ws \<noteq> length cells)))
   \<and> (tableShaped t \<longrightarrow> (\<exists>v. convertGrid toHast toHtml allow t = Inr (html v)))
   \<and> (extractColumnWidths t = Inr None \<longrightarrow>
         convertGrid toHast toHtml allow t = Inr (html (toHtml (toHast t allow) allow)))
   \<and> (transformGridToHtml toHast toHtml r allow = Inr result \<and> node_at r (i # p) = Some t
         \<and> \<not> insideGrid r (i # p) \<and> isGridTable t \<and> extractColumnWidths t = Inr None \<longrightarrow>
         node_at result (i # p) = Some (html (toHtml (toHast t allow) allow)))
   \<and> (isParent r \<and> gridsTableShaped r \<longrightarrow>
         (\<exists>result. transformGridToHtml toHast toHtml r allow = Inr result))"
proof (intro conjI impI)
  assume sh: "tableShaped t"
  then obtain rows where rows: "children t = Some rows"
    and first: "rows = [] \<or> children (hd rows) \<noteq> None"
    by (auto simp: tableShaped_def split: option.splits)
  show "(extractColumnWidths t = Inr None) =
        (data_colWidths t = None \<or> data_colWidths t = Some [] \<or> children t = Some []
         \<or> (\<exists>ws rows cells. data_colWidths t = Some ws \<and> children t = Some rows \<and> rows \<noteq> []
               \<and> children (rows ! 0) = Some cells \<and> length ws \<noteq> length cells))"
    using rows first
    by (auto simp: extractColumnWidths_cases hd_conv_nth split: option.splits)
  from sh show "\<exists>v. convertGrid toHast toHtml allow t = Inr (html v)"
    by (rule convertGrid_total)
next
  assume "extractColumnWidths t = Inr None"
  then show "convertGrid toHast toHtml allow t = Inr (html (toHtml (toHast t allow) allow))"
    by (rule convertGrid_plain)
next
  assume b: "transformGridToHtml toHast toHtml r allow = Inr result \<and> node_at r (i # p) = Some t
         \<and> \<not> insideGrid r (i # p) \<and> isGridTable t \<and> extractColumnWidths t = Inr None"
  then have v: "visit toHast toHtml allow r = Inr result"
    by (simp add: transformGridToHtml_def)
  from visit_at [OF v] b obtain c' where "node_at result (i # p) = Some c'"
    and "visitChild toHast toHtml allow t = Inr c'" by blast
  with b show "node_at result (i # p) = Some (html (toHtml (toHast t allow) allow))"
    by (simp add: visitChild_def convertGrid_plain)
next
  assume "isParent r \<and> gridsTableShaped r"
  then show "\<exists>result. transformGridToHtml toHast toHtml r allow = Inr result"
    by (simp add: transformGridToHtml_def visit_total)
qed

theorem width_extraction_absent_witness:
  "tableShaped (twoColumnGrid [Fin 1, Fin 1, Fin 1])
   \<and> extractColumnWidths (twoColumnGrid [Fin 1, Fin 1, Fin 1]) = Inr None
   \<and> convertGrid sampleToHast sampleToHtml False (twoColumnGrid [Fin 1, Fin 1, Fin 1])
       = Inr (html ''<root><table><tbody>'')
   \<and> isParent (rootOf [twoColumnGrid [Fin 1, Fin 1, Fin 1]])
   \<and> gridsTableShaped (rootOf [twoColumnGrid [Fin 1, Fin 1, Fin 1]])
   \<and> node_at (rootOf [twoColumnGrid [Fin 1, Fin 1, Fin 1]]) [0]
       = Some (twoColumnGrid [Fin 1, Fin 1, Fin 1])
   \<and> \<not> insideGrid (rootOf [twoColumnGrid [Fin 1, Fin 1, Fin 1]]) [0]
   \<and> isGridTable (twoColumnGrid [Fin 1, Fin 1, Fin 1])
   \<and> (\<exists>result. transformGridToHtml sampleToHast sampleToHtml
                  (rootOf [twoColumnGrid [Fin 1, Fin 1, Fin 1]]) False = Inr result
         \<and> node_at result [0] = Some (html ''<root><table><tbody>''))"
proof -
  let ?g = "twoColumnGrid [Fin 1, Fin 1, Fin 1]"
  let ?r = "rootOf [?g]"
  have sh: "tableShaped ?g" by (simp add: tableShaped_def twoColumnGrid_def)
  have g: "isGridTable ?g" by (simp add: isGridTable_def twoColumnGrid_def)
  have par: "isParent ?r" by (simp add: isParent_def rootOf_def)
  have gs: "gridsTableShaped ?r" using sh g by (simp add: rootOf_def)
  have at: "node_at ?r [0] = Some ?g" by (simp add: rootOf_def)
  have ni: "\<not> insideGrid ?r [0]" by simp
  have str: "sampleToHtml (sampleToHast ?g False) False = ''<root><table><tbody>''"
    by (simp add: sampleToHast_def)
  from width_extraction_absent [of ?g sampleToHast sampleToHtml False] ex_mismatch str
  have conv: "convertGrid sampleToHast sampleToHtml False ?g = Inr (html ''<root><table><tbody>'')"
    by simp
  from width_extraction_absent [of ?g sampleToHast sampleToHtml False ?r] par gs
  obtain result where res: "transformGridToHtml sampleToHast sampleToHtml ?r False = Inr result"
    by blast
  from width_extraction_absent [of ?g sampleToHast sampleToHtml False ?r result 0 "[]"]
    res at ni g ex_mismatch str
  have "node_at result [0] = Some (html ''<root><table><tbody>'')" by simp
  with sh ex_mismatch conv par gs at ni g res show ?thesis by blast
qed

section \<open>The invalid table rewriter\<close>

text \<open>
  \<^verbatim>\<open>transformInvalidTablesToHtml\<close> finds the inner node of a record among the children of
  its parent by identity, and the parents of several records may be one node or lie inside
  one another. So the nodes live in a store here: a reference is an index into the list of
  all nodes, a child array is a list of references, and a new node gets the next index. A
  node carries its child array in itself (no two nodes share an array). The function takes
  the store and returns it updated.
\<close>

type_synonym ref = nat

record 'c mdobject =
  otype :: string
  odata_type :: "string option"
  odata_colWidths :: "jsnum list option"
  odata_invalidChildren :: "ref list option"
  ochildren :: 'c
  ovalue :: "string option"

text \<open>
  A node in the store has references as children. The copies that the spread expressions
  build are new objects: a derived cell has the fields of the cell, a derived row holds
  derived cells, the derived table holds derived rows.
\<close>

type_synonym heapnode = "ref list option mdobject"
type_synonym heap = "heapnode list"

type_synonym derivedCell = "ref list option mdobject"
type_synonym derivedRow = "derivedCell list mdobject"
type_synonym derivedTable = "derivedRow list mdobject"

record InvalidTable =
  parent :: "ref option"
  inner :: ref

text \<open>Calling a method on an absent child array throws a TypeError. A reference beyond the
  store has no counterpart in the program; reading it is an error of its own.\<close>

datatype heap_error = HeapTypeError | DanglingReference

definition deref :: "heap \<Rightarrow> ref \<Rightarrow> heap_error + heapnode" where
  "deref h r = (if r < length h then Inr (h ! r) else Inl DanglingReference)"

text \<open>\<^verbatim>\<open>Array.prototype.findIndex\<close>: the first index whose entry passes, or \<open>-1\<close>.\<close>

fun findIndex :: "('a \<Rightarrow> bool) \<Rightarrow> 'a list \<Rightarrow> int" where
  "findIndex P [] = - 1"
| "findIndex P (x # xs) =
     (if P x then 0 else (let i = findIndex P xs in if i = - 1 then - 1 else i + 1))"

definition htmlNode :: "string \<Rightarrow> heapnode" where
  "htmlNode v = \<lparr>otype = ''html'', odata_type = None, odata_colWidths = None,
                 odata_invalidChildren = None, ochildren = None, ovalue = Some v\<rparr>"

text \<open>
  The argument of \<^verbatim>\<open>toHast\<close>: \<^verbatim>\<open>{...cell, children: cell.data?.invalidChildren ?? cell.children}\<close>
  for each cell, \<^verbatim>\<open>{...row, children: row.children.map(...)}\<close> for each row, and the same for
  the table. None of them writes to the store.
\<close>

definition deriveCell :: "heap \<Rightarrow> ref \<Rightarrow> heap_error + derivedCell" where
  "deriveCell h c =
     (case deref h c of
        Inl e \<Rightarrow> Inl e
      | Inr cell \<Rightarrow>
          Inr (cell\<lparr>ochildren := (case odata_invalidChildren cell of
                                      Some invalidChildren \<Rightarrow> Some invalidChildren
                                    | None \<Rightarrow> ochildren cell)\<rparr>))"

definition deriveRow :: "heap \<Rightarrow> ref \<Rightarrow> heap_error + derivedRow" where
  "deriveRow h r =
     (case deref h r of
        Inl e \<Rightarrow> Inl e
      | Inr row \<Rightarrow>
          (case ochildren row of
             None \<Rightarrow> Inl HeapTypeError
           | Some cells \<Rightarrow>
               (case sequence (map (deriveCell h) cells) of
                  Inl e \<Rightarrow> Inl e
                | Inr cells' \<Rightarrow>
                    Inr \<lparr>otype = otype row, odata_type = odata_type row,
                         odata_colWidths = odata_colWidths row,
                         odata_invalidChildren = odata_invalidChildren row,
                         ochildren = cells', ovalue = ovalue row\<rparr>)))"

definition deriveTable :: "heap \<Rightarrow> ref \<Rightarrow> heap_error + derivedTable" where
  "deriveTable h t =
     (case deref h t of
        Inl e \<Rightarrow> Inl e
      | Inr table \<Rightarrow>
          (case ochildren table of
             None \<Rightarrow> Inl HeapTypeError
           | Some rows \<Rightarrow>
               (case sequence (map (deriveRow h) rows) of
                  Inl e \<Rightarrow> Inl e
                | Inr rows' \<Rightarrow>
                    Inr \<lparr>otype = otype table, odata_type = odata_type table,
                         odata_colWidths = odata_colWidths table,
                         odata_invalidChildren = odata_invalidChildren table,
                         ochildren = rows', ovalue = ovalue table\<rparr>)))"

text \<open>
  The callback of \<^verbatim>\<open>forEach\<close> for one record. \<^verbatim>\<open>invalidTable.parent?.children.findIndex\<close> is
  \<^verbatim>\<open>undefined\<close> for a missing parent. The new node is built before \<^verbatim>\<open>splice\<close> runs, from
  the store as it is then. The library functions are arguments; \<^verbatim>\<open>toHast\<close> reads the derived
  table and, through its references, the store, and does not write to it.
\<close>

definition transformInvalidTable ::
  "(heap \<Rightarrow> derivedTable \<Rightarrow> bool \<Rightarrow> hast) \<Rightarrow> (hast \<Rightarrow> bool \<Rightarrow> string) \<Rightarrow> bool
     \<Rightarrow> heap \<Rightarrow> InvalidTable \<Rightarrow> heap_error + heap" where
  "transformInvalidTable toHast toHtml allowDangerousHtml h invalidTable =
     (case parent invalidTable of
        None \<Rightarrow> Inr h
      | Some p \<Rightarrow>
          (case deref h p of
             Inl e \<Rightarrow> Inl e
           | Inr parentNode \<Rightarrow>
               (case ochildren parentNode of
                  None \<Rightarrow> Inl HeapTypeError
                | Some cs \<Rightarrow>
                    let invalidTableIndex = findIndex (\<lambda>child. child = inner invalidTable) cs
                    in if invalidTableIndex \<noteq> - 1 then
                         (case deriveTable h (inner invalidTable) of
                            Inl e \<Rightarrow> Inl e
                          | Inr derived \<Rightarrow>
                              let v = toHtml (toHast h derived allowDangerousHtml)
                                        allowDangerousHtml;
                                  new = length h
                              in Inr (h[p := parentNode\<lparr>ochildren :=
                                          Some (cs[nat invalidTableIndex := new])\<rparr>]
                                      @ [htmlNode v]))
                       else Inr h)))"

fun transformInvalidTablesToHtml ::
  "(heap \<Rightarrow> derivedTable \<Rightarrow> bool \<Rightarrow> hast) \<Rightarrow> (hast \<Rightarrow> bool \<Rightarrow> string)
     \<Rightarrow> heap \<Rightarrow> InvalidTable list \<Rightarrow> bool \<Rightarrow> heap_error + heap" where
  "transformInvalidTablesToHtml toHast toHtml h [] allowDangerousHtml = Inr h"
| "transformInvalidTablesToHtml toHast toHtml h (invalidTable # rest) allowDangerousHtml =
     (case transformInvalidTable toHast toHtml allowDangerousHtml h invalidTable of
        Inl e \<Rightarrow> Inl e
      | Inr h' \<Rightarrow> transformInvalidTablesToHtml toHast toHtml h' rest allowDangerousHtml)"

lemma findIndex_absent: "(\<forall>x\<in>set xs. \<not> P x) \<Longrightarrow> findIndex P xs = - 1"
  by (induction xs) (auto simp: Let_def)

lemma findIndex_present:
  "\<exists>x\<in>set xs. P x \<Longrightarrow>
     \<exists>k<length xs. findIndex P xs = int k \<and> P (xs ! k) \<and> (\<forall>j<k. \<not> P (xs ! j))"
proof (induction xs)
  case Nil
  then show ?case by simp
next
  case (Cons x xs)
  show ?case
  proof (cases "P x")
    case True
    then show ?thesis by (intro exI [of _ 0]) simp
  next
    case False
    with Cons.prems have "\<exists>x\<in>set xs. P x" by simp
    from Cons.IH [OF this] obtain k where k: "k < length xs" and f: "findIndex P xs = int k"
      and p: "P (xs ! k)" and b: "\<forall>j<k. \<not> P (xs ! j)" by blast
    have "\<forall>j<Suc k. \<not> P ((x # xs) ! j)" using False b by (auto simp: nth_Cons split: nat.splits)
    with k f p False show ?thesis by (intro exI [of _ "Suc k"]) (simp add: Let_def)
  qed
qed

lemma skip_no_parent:
  "parent r = None \<Longrightarrow> transformInvalidTable toHast toHtml allow h r = Inr h"
  by (simp add: transformInvalidTable_def)

lemma skip_not_found:
  "parent r = Some p \<Longrightarrow> deref h p = Inr pn \<Longrightarrow> ochildren pn = Some cs \<Longrightarrow>
   inner r \<notin> set cs \<Longrightarrow> transformInvalidTable toHast toHtml allow h r = Inr h"
proof -
  assume a: "parent r = Some p" "deref h p = Inr pn" "ochildren pn = Some cs"
    and "inner r \<notin> set cs"
  then have "findIndex (\<lambda>child. child = inner r) cs = - 1"
    by (intro findIndex_absent) auto
  with a show ?thesis by (simp add: transformInvalidTable_def)
qed

lemma replace_found:
  assumes "parent r = Some p" "deref h p = Inr pn" "ochildren pn = Some cs"
    "inner r \<in> set cs" "deriveTable h (inner r) = Inr d"
  shows "\<exists>k<length cs. cs ! k = inner r \<and> (\<forall>j<k. cs ! j \<noteq> inner r)
           \<and> transformInvalidTable toHast toHtml allow h r =
               Inr (h[p := pn\<lparr>ochildren := Some (cs[k := length h])\<rparr>]
                    @ [htmlNode (toHtml (toHast h d allow) allow)])"
proof -
  from assms(4) have "\<exists>x\<in>set cs. x = inner r" by simp
  from findIndex_present [OF this] obtain k where k: "k < length cs"
    and f: "findIndex (\<lambda>child. child = inner r) cs = int k"
    and p: "cs ! k = inner r" and b: "\<forall>j<k. cs ! j \<noteq> inner r" by blast
  have "transformInvalidTable toHast toHtml allow h r =
               Inr (h[p := pn\<lparr>ochildren := Some (cs[k := length h])\<rparr>]
                    @ [htmlNode (toHtml (toHast h d allow) allow)])"
    using assms(1,2,3,5) f by (simp add: transformInvalidTable_def Let_def)
  with k p b show ?thesis by blast
qed

lemma deriveCell_Inr:
  "deriveCell h c = Inr d \<Longrightarrow>
     \<exists>cell. deref h c = Inr cell
       \<and> d = cell\<lparr>ochildren := (case odata_invalidChildren cell of
                                  Some ic \<Rightarrow> Some ic | None \<Rightarrow> ochildren cell)\<rparr>"
  by (auto simp: deriveCell_def split: sum.splits)

lemma deriveRow_Inr:
  "deriveRow h r = Inr d \<Longrightarrow>
     \<exists>row cells. deref h r = Inr row \<and> ochildren row = Some cells
       \<and> otype d = otype row \<and> odata_type d = odata_type row
       \<and> odata_colWidths d = odata_colWidths row
       \<and> odata_invalidChildren d = odata_invalidChildren row \<and> ovalue d = ovalue row
       \<and> length (ochildren d) = length cells
       \<and> (\<forall>j<length cells. deriveCell h (cells ! j) = Inr (ochildren d ! j))"
proof -
  assume a: "deriveRow h r = Inr d"
  then obtain row cells cells' where row: "deref h r = Inr row" and cells: "ochildren row = Some cells"
    and s: "sequence (map (deriveCell h) cells) = Inr cells'"
    and d: "d = \<lparr>otype = otype row, odata_type = odata_type row,
                 odata_colWidths = odata_colWidths row,
                 odata_invalidChildren = odata_invalidChildren row,
                 ochildren = cells', ovalue = ovalue row\<rparr>"
    by (auto simp: deriveRow_def split: sum.splits option.splits)
  from sequence_Inr [OF s] have "length cells' = length cells"
    and "\<forall>j<length cells. deriveCell h (cells ! j) = Inr (cells' ! j)" by simp_all
  with row cells d show ?thesis by simp
qed

lemma deriveTable_Inr:
  "deriveTable h t = Inr d \<Longrightarrow>
     \<exists>table rows. deref h t = Inr table \<and> ochildren table = Some rows
       \<and> otype d = otype table \<and> odata_type d = odata_type table
       \<and> odata_colWidths d = odata_colWidths table
       \<and> odata_invalidChildren d = odata_invalidChildren table \<and> ovalue d = ovalue table
       \<and> length (ochildren d) = length rows
       \<and> (\<forall>i<length rows. deriveRow h (rows ! i) = Inr (ochildren d ! i))"
proof -
  assume a: "deriveTable h t = Inr d"
  then obtain table rows rows' where table: "deref h t = Inr table"
    and rows: "ochildren table = Some rows"
    and s: "sequence (map (deriveRow h) rows) = Inr rows'"
    and d: "d = \<lparr>otype = otype table, odata_type = odata_type table,
                 odata_colWidths = odata_colWidths table,
                 odata_invalidChildren = odata_invalidChildren table,
                 ochildren = rows', ovalue = ovalue table\<rparr>"
    by (auto simp: deriveTable_def split: sum.splits option.splits)
  from sequence_Inr [OF s] have "length rows' = length rows"
    and "\<forall>i<length rows. deriveRow h (rows ! i) = Inr (rows' ! i)" by simp_all
  with table rows d show ?thesis by simp
qed

text \<open>What one record changes.\<close>
lemma transformInvalidTable_frame:
  assumes "transformInvalidTable toHast toHtml allow h r = Inr h'"
  shows "h' = h \<or>
    (\<exists>p pn cs k v. parent r = Some p \<and> p < length h \<and> h ! p = pn \<and> ochildren pn = Some cs
        \<and> k < length cs \<and> cs ! k = inner r
        \<and> h' = h[p := pn\<lparr>ochildren := Some (cs[k := length h])\<rparr>] @ [htmlNode v])"
proof (cases "parent r")
  case None
  with assms show ?thesis by (simp add: skip_no_parent)
next
  case (Some p)
  show ?thesis
  proof (cases "deref h p")
    case (Inl e)
    with assms Some show ?thesis by (simp add: transformInvalidTable_def)
  next
    case (Inr pn)
    then have p: "p < length h" and pn: "h ! p = pn" by (auto simp: deref_def split: if_splits)
    show ?thesis
    proof (cases "ochildren pn")
      case None
      with assms Some Inr show ?thesis by (simp add: transformInvalidTable_def)
    next
      case cs: (Some cs)
      show ?thesis
      proof (cases "inner r \<in> set cs")
        case False
        from skip_not_found [OF Some Inr cs False] assms show ?thesis by simp
      next
        case True
        show ?thesis
        proof (cases "deriveTable h (inner r)")
          case (Inl e)
          from True have "\<exists>x\<in>set cs. x = inner r" by simp
          from findIndex_present [OF this] have "findIndex (\<lambda>child. child = inner r) cs \<noteq> - 1"
            by auto
          with assms Some Inr cs Inl show ?thesis by (simp add: transformInvalidTable_def Let_def)
        next
          case d: (Inr d)
          from replace_found [OF Some Inr cs True d, of toHast toHtml allow] assms
          obtain k where "k < length cs" "cs ! k = inner r"
            "h' = h[p := pn\<lparr>ochildren := Some (cs[k := length h])\<rparr>]
                    @ [htmlNode (toHtml (toHast h d allow) allow)]" by auto
          with Some p pn cs show ?thesis by blast
        qed
      qed
    qed
  qed
qed

subsection \<open>What the call leaves unchanged\<close>

text \<open>A child sequence after the call: same length, and each entry is the old one or a
  node made during the call.\<close>
definition childrenReplaced :: "nat \<Rightarrow> ref list option \<Rightarrow> ref list option \<Rightarrow> bool" where
  "childrenReplaced n old new =
     (case old of
        None \<Rightarrow> new = None
      | Some xs \<Rightarrow>
          (case new of
             None \<Rightarrow> False
           | Some ys \<Rightarrow> length ys = length xs \<and> (\<forall>k<length xs. ys ! k = xs ! k \<or> n \<le> ys ! k)))"

definition nodePreserved :: "nat \<Rightarrow> heapnode \<Rightarrow> heapnode \<Rightarrow> bool" where
  "nodePreserved n a b =
     (otype b = otype a \<and> odata_type b = odata_type a \<and> odata_colWidths b = odata_colWidths a
      \<and> odata_invalidChildren b = odata_invalidChildren a \<and> ovalue b = ovalue a
      \<and> childrenReplaced n (ochildren a) (ochildren b))"

definition heapPreserved :: "InvalidTable list \<Rightarrow> heap \<Rightarrow> heap \<Rightarrow> bool" where
  "heapPreserved recs h h' =
     (length h \<le> length h'
      \<and> (\<forall>a<length h. nodePreserved (length h) (h ! a) (h' ! a))
      \<and> (\<forall>a<length h. Some a \<notin> parent ` set recs \<longrightarrow> h' ! a = h ! a)
      \<and> (\<forall>a. length h \<le> a \<and> a < length h' \<longrightarrow> (\<exists>v. h' ! a = htmlNode v)))"

lemma childrenReplaced_refl: "childrenReplaced n cs cs"
  by (simp add: childrenReplaced_def split: option.splits)

lemma childrenReplaced_trans:
  "childrenReplaced n a b \<Longrightarrow> childrenReplaced m b c \<Longrightarrow> n \<le> m \<Longrightarrow> childrenReplaced n a c"
  unfolding childrenReplaced_def
  by (auto split: option.splits) (metis le_trans)

lemma nodePreserved_refl: "nodePreserved n a a"
  by (simp add: nodePreserved_def childrenReplaced_refl)

lemma nodePreserved_trans:
  "nodePreserved n a b \<Longrightarrow> nodePreserved m b c \<Longrightarrow> n \<le> m \<Longrightarrow> nodePreserved n a c"
  unfolding nodePreserved_def using childrenReplaced_trans by auto

lemma nodePreserved_html: "nodePreserved n (htmlNode v) b \<Longrightarrow> b = htmlNode v"
  by (simp add: nodePreserved_def htmlNode_def childrenReplaced_def)

lemma heapPreserved_refl: "heapPreserved recs h h"
  by (auto simp: heapPreserved_def nodePreserved_refl)

lemma heapPreserved_step:
  assumes "transformInvalidTable toHast toHtml allow h r = Inr h'"
  shows "heapPreserved [r] h h'"
proof -
  from transformInvalidTable_frame [OF assms] consider (same) "h' = h"
    | (repl) p pn cs k v where "parent r = Some p" "p < length h" "h ! p = pn"
        "ochildren pn = Some cs" "k < length cs"
        "h' = h[p := pn\<lparr>ochildren := Some (cs[k := length h])\<rparr>] @ [htmlNode v]"
    by blast
  then show ?thesis
  proof cases
    case same
    then show ?thesis by (simp add: heapPreserved_refl)
  next
    case repl
    have len: "length h' = Suc (length h)" using repl(6) by simp
    have other: "\<And>a. a < length h \<Longrightarrow> a \<noteq> p \<Longrightarrow> h' ! a = h ! a"
      using repl(6) by (simp add: nth_append)
    have atp: "h' ! p = pn\<lparr>ochildren := Some (cs[k := length h])\<rparr>"
      using repl(2,6) by (simp add: nth_append)
    have new: "h' ! length h = htmlNode v" using repl(6) by (simp add: nth_append)
    have pres: "nodePreserved (length h) (h ! a) (h' ! a)" if "a < length h" for a
    proof (cases "a = p")
      case True
      have "childrenReplaced (length h) (Some cs) (Some (cs[k := length h]))"
        using repl(5) by (auto simp: childrenReplaced_def nth_list_update)
      with True atp repl(3,4) show ?thesis by (simp add: nodePreserved_def)
    next
      case False
      with other [OF that] show ?thesis by (simp add: nodePreserved_refl)
    qed
    have "\<forall>a<length h. Some a \<notin> parent ` set [r] \<longrightarrow> h' ! a = h ! a"
      using other repl(1) by auto
    moreover have "\<forall>a. length h \<le> a \<and> a < length h' \<longrightarrow> (\<exists>v. h' ! a = htmlNode v)"
      using len new by (metis le_less_Suc_eq)
    ultimately show ?thesis using len pres by (simp add: heapPreserved_def)
  qed
qed

lemma heapPreserved_trans:
  assumes "heapPreserved [r] h h1" "heapPreserved rest h1 h2"
  shows "heapPreserved (r # rest) h h2"
proof -
  from assms have l1: "length h \<le> length h1" and l2: "length h1 \<le> length h2"
    by (simp_all add: heapPreserved_def)
  have pres: "nodePreserved (length h) (h ! a) (h2 ! a)" if "a < length h" for a
  proof -
    from that assms(1) have "nodePreserved (length h) (h ! a) (h1 ! a)"
      by (simp add: heapPreserved_def)
    moreover from that l1 assms(2) have "nodePreserved (length h1) (h1 ! a) (h2 ! a)"
      by (simp add: heapPreserved_def)
    ultimately show ?thesis using l1 by (rule nodePreserved_trans)
  qed
  have same: "h2 ! a = h ! a" if "a < length h" "Some a \<notin> parent ` set (r # rest)" for a
  proof -
    from that assms(1) have "h1 ! a = h ! a" by (simp add: heapPreserved_def)
    moreover from that l1 assms(2) have "h2 ! a = h1 ! a" by (simp add: heapPreserved_def)
    ultimately show ?thesis by simp
  qed
  have new: "\<exists>v. h2 ! a = htmlNode v" if "length h \<le> a" "a < length h2" for a
  proof (cases "a < length h1")
    case True
    with that assms(1) obtain v where v: "h1 ! a = htmlNode v" by (auto simp: heapPreserved_def)
    from True assms(2) have "nodePreserved (length h1) (h1 ! a) (h2 ! a)"
      by (simp add: heapPreserved_def)
    with v have "h2 ! a = htmlNode v" by (simp add: nodePreserved_html)
    then show ?thesis ..
  next
    case False
    with that assms(2) show ?thesis by (simp add: heapPreserved_def)
  qed
  from l1 l2 pres same new show ?thesis unfolding heapPreserved_def by auto
qed

lemma heapPreserved_all:
  "transformInvalidTablesToHtml toHast toHtml h recs allow = Inr h' \<Longrightarrow> heapPreserved recs h h'"
proof (induction recs arbitrary: h)
  case Nil
  then show ?case by (simp add: heapPreserved_refl)
next
  case (Cons r rest)
  from Cons.prems obtain h1 where s: "transformInvalidTable toHast toHtml allow h r = Inr h1"
    and t: "transformInvalidTablesToHtml toHast toHtml h1 rest allow = Inr h'"
    by (auto split: sum.splits)
  from heapPreserved_step [OF s] Cons.IH [OF t] show ?case by (rule heapPreserved_trans)
qed

subsection \<open>Tables of the declared shape in the store\<close>

text \<open>The shape that the type of \<^verbatim>\<open>inner\<close> promises: a table with rows with cells.\<close>
definition rowAt :: "heap \<Rightarrow> ref \<Rightarrow> bool" where
  "rowAt h r =
     (r < length h \<and>
      (case ochildren (h ! r) of
         None \<Rightarrow> False
       | Some cells \<Rightarrow> list_all (\<lambda>c. c < length h) cells))"

definition tableAt :: "heap \<Rightarrow> ref \<Rightarrow> bool" where
  "tableAt h t =
     (t < length h \<and>
      (case ochildren (h ! t) of
         None \<Rightarrow> False
       | Some rows \<Rightarrow> list_all (rowAt h) rows))"

lemma deriveCell_total: "c < length h \<Longrightarrow> \<exists>d. deriveCell h c = Inr d"
  by (simp add: deriveCell_def deref_def)

lemma deriveRow_total:
  assumes "rowAt h r"
  shows "\<exists>d. deriveRow h r = Inr d"
proof -
  from assms have r: "r < length h" by (simp add: rowAt_def)
  from assms obtain cells where cells: "ochildren (h ! r) = Some cells"
    by (cases "ochildren (h ! r)") (simp_all add: rowAt_def)
  with assms have all: "list_all (\<lambda>c. c < length h) cells" by (simp add: rowAt_def)
  have "\<forall>x\<in>set (map (deriveCell h) cells). \<exists>y. x = Inr y"
    using all deriveCell_total by (auto simp: list_all_iff)
  from sequence_all_Inr [OF this] obtain ys where "sequence (map (deriveCell h) cells) = Inr ys" ..
  with r cells show ?thesis by (simp add: deriveRow_def deref_def)
qed

lemma deriveTable_total:
  assumes "tableAt h t"
  shows "\<exists>d. deriveTable h t = Inr d"
proof -
  from assms have t: "t < length h" by (simp add: tableAt_def)
  from assms obtain rows where rows: "ochildren (h ! t) = Some rows"
    by (cases "ochildren (h ! t)") (simp_all add: tableAt_def)
  with assms have all: "list_all (rowAt h) rows" by (simp add: tableAt_def)
  have "\<forall>x\<in>set (map (deriveRow h) rows). \<exists>y. x = Inr y"
    using all deriveRow_total by (auto simp: list_all_iff)
  from sequence_all_Inr [OF this] obtain ys where "sequence (map (deriveRow h) rows) = Inr ys" ..
  with t rows show ?thesis by (simp add: deriveTable_def deref_def)
qed

lemma derived_copy:
  assumes "deriveTable h t = Inr d"
  shows "\<exists>table rows. deref h t = Inr table \<and> ochildren table = Some rows
       \<and> otype d = otype table \<and> odata_type d = odata_type table
       \<and> odata_colWidths d = odata_colWidths table
       \<and> odata_invalidChildren d = odata_invalidChildren table \<and> ovalue d = ovalue table
       \<and> length (ochildren d) = length rows
       \<and> (\<forall>i<length rows. \<exists>row cells. deref h (rows ! i) = Inr row \<and> ochildren row = Some cells
             \<and> otype (ochildren d ! i) = otype row
             \<and> odata_type (ochildren d ! i) = odata_type row
             \<and> odata_colWidths (ochildren d ! i) = odata_colWidths row
             \<and> odata_invalidChildren (ochildren d ! i) = odata_invalidChildren row
             \<and> ovalue (ochildren d ! i) = ovalue row
             \<and> length (ochildren (ochildren d ! i)) = length cells
             \<and> (\<forall>j<length cells. \<exists>cell. deref h (cells ! j) = Inr cell
                   \<and> ochildren (ochildren d ! i) ! j =
                       cell\<lparr>ochildren := (case odata_invalidChildren cell of
                                              Some ic \<Rightarrow> Some ic | None \<Rightarrow> ochildren cell)\<rparr>))"
proof -
  from deriveTable_Inr [OF assms] obtain table rows where table: "deref h t = Inr table"
    "ochildren table = Some rows" "otype d = otype table" "odata_type d = odata_type table"
    "odata_colWidths d = odata_colWidths table"
    "odata_invalidChildren d = odata_invalidChildren table" "ovalue d = ovalue table"
    "length (ochildren d) = length rows"
    and each: "\<forall>i<length rows. deriveRow h (rows ! i) = Inr (ochildren d ! i)" by blast
  have "\<exists>row cells. deref h (rows ! i) = Inr row \<and> ochildren row = Some cells
             \<and> otype (ochildren d ! i) = otype row
             \<and> odata_type (ochildren d ! i) = odata_type row
             \<and> odata_colWidths (ochildren d ! i) = odata_colWidths row
             \<and> odata_invalidChildren (ochildren d ! i) = odata_invalidChildren row
             \<and> ovalue (ochildren d ! i) = ovalue row
             \<and> length (ochildren (ochildren d ! i)) = length cells
             \<and> (\<forall>j<length cells. \<exists>cell. deref h (cells ! j) = Inr cell
                   \<and> ochildren (ochildren d ! i) ! j =
                       cell\<lparr>ochildren := (case odata_invalidChildren cell of
                                              Some ic \<Rightarrow> Some ic | None \<Rightarrow> ochildren cell)\<rparr>)"
    if i: "i < length rows" for i
  proof -
    from each i have "deriveRow h (rows ! i) = Inr (ochildren d ! i)" by simp
    from deriveRow_Inr [OF this] obtain row cells where row: "deref h (rows ! i) = Inr row"
      "ochildren row = Some cells" "otype (ochildren d ! i) = otype row"
      "odata_type (ochildren d ! i) = odata_type row"
      "odata_colWidths (ochildren d ! i) = odata_colWidths row"
      "odata_invalidChildren (ochildren d ! i) = odata_invalidChildren row"
      "ovalue (ochildren d ! i) = ovalue row"
      "length (ochildren (ochildren d ! i)) = length cells"
      and cells: "\<forall>j<length cells. deriveCell h (cells ! j) = Inr (ochildren (ochildren d ! i) ! j)"
      by blast
    have "\<forall>j<length cells. \<exists>cell. deref h (cells ! j) = Inr cell
                   \<and> ochildren (ochildren d ! i) ! j =
                       cell\<lparr>ochildren := (case odata_invalidChildren cell of
                                              Some ic \<Rightarrow> Some ic | None \<Rightarrow> ochildren cell)\<rparr>"
      using cells deriveCell_Inr by blast
    with row show ?thesis by blast
  qed
  with table show ?thesis by blast
qed

lemma skip_all:
  "(\<forall>r\<in>set recs. parent r = None
       \<or> (\<exists>p pn cs. parent r = Some p \<and> deref h p = Inr pn \<and> ochildren pn = Some cs
             \<and> inner r \<notin> set cs)) \<Longrightarrow>
   transformInvalidTablesToHtml toHast toHtml h recs allow = Inr h"
proof (induction recs)
  case Nil
  then show ?case by simp
next
  case (Cons r recs)
  from Cons.prems have "transformInvalidTable toHast toHtml allow h r = Inr h"
    using skip_no_parent skip_not_found by (metis list.set_intros(1))
  with Cons show ?case by simp
qed

subsection \<open>Concrete stores\<close>

text \<open>A stand-in for the library's conversion of a derived table: every cell lists the
  types of the nodes that the derived copy gives it as children.\<close>

definition sampleTableToHast :: "heap \<Rightarrow> derivedTable \<Rightarrow> bool \<Rightarrow> hast" where
  "sampleTableToHast h d allowDangerousHtml =
     HastNode ''element'' (Some ''table'') None
       (Some (map (\<lambda>row. HastNode ''element'' (Some ''tr'') None
                (Some (map (\<lambda>cell. HastNode ''element'' (Some ''td'') None
                         (Some (map (\<lambda>r. HastNode (case deref h r of
                                                      Inl e \<Rightarrow> ''?'' | Inr n \<Rightarrow> otype n)
                                            None None None)
                                  (case ochildren cell of None \<Rightarrow> [] | Some rs \<Rightarrow> rs))))
                         (ochildren row))))
                (ochildren d)))"

definition node :: "string \<Rightarrow> ref list option \<Rightarrow> heapnode" where
  "node ty cs = \<lparr>otype = ty, odata_type = None, odata_colWidths = None,
                 odata_invalidChildren = None, ochildren = cs, ovalue = None\<rparr>"

text \<open>A root (0) with an invalid table (1) of one row (2) with two cells: cell 3 has a
  text child (5) and invalid children (a list, 6); cell 4 has a text child (5) only.\<close>
definition sampleHeap :: heap where
  "sampleHeap =
     [node ''root'' (Some [1]),
      node ''table'' (Some [2]),
      node ''tableRow'' (Some [3, 4]),
      (node ''tableCell'' (Some [5]))\<lparr>odata_invalidChildren := Some [6]\<rparr>,
      node ''tableCell'' (Some [5]),
      node ''text'' None,
      node ''list'' (Some [])]"

text \<open>A root (0) with a table (1) whose only cell (3) holds a second table (4).\<close>
definition nestedTablesHeap :: heap where
  "nestedTablesHeap =
     [node ''root'' (Some [1]),
      node ''table'' (Some [2]),
      node ''tableRow'' (Some [3]),
      node ''tableCell'' (Some [4]),
      node ''table'' (Some [])]"

lemma sample_derive:
  "deriveTable sampleHeap 1 =
     Inr \<lparr>otype = ''table'', odata_type = None, odata_colWidths = None,
          odata_invalidChildren = None,
          ochildren = [\<lparr>otype = ''tableRow'', odata_type = None, odata_colWidths = None,
                         odata_invalidChildren = None,
                         ochildren = [(node ''tableCell'' (Some [6]))
                                        \<lparr>odata_invalidChildren := Some [6]\<rparr>,
                                      node ''tableCell'' (Some [5])],
                         ovalue = None\<rparr>],
          ovalue = None\<rparr>"
  by (simp add: deriveTable_def deriveRow_def deriveCell_def deref_def sampleHeap_def node_def)

lemma sample_render:
  "sampleToHtml (sampleTableToHast sampleHeap
     \<lparr>otype = ''table'', odata_type = None, odata_colWidths = None,
          odata_invalidChildren = None,
          ochildren = [\<lparr>otype = ''tableRow'', odata_type = None, odata_colWidths = None,
                         odata_invalidChildren = None,
                         ochildren = [(node ''tableCell'' (Some [6]))
                                        \<lparr>odata_invalidChildren := Some [6]\<rparr>,
                                      node ''tableCell'' (Some [5])],
                         ovalue = None\<rparr>],
          ovalue = None\<rparr> False) False = ''<table><tr><td><list><td><text>''"
  by (simp add: sampleTableToHast_def deref_def sampleHeap_def node_def)

lemma nested_run:
  "transformInvalidTablesToHtml sampleTableToHast sampleToHtml nestedTablesHeap
     [\<lparr>parent = Some 0, inner = 1\<rparr>, \<lparr>parent = Some 3, inner = 4\<rparr>] False
   = Inr [node ''root'' (Some [5]),
          node ''table'' (Some [2]),
          node ''tableRow'' (Some [3]),
          node ''tableCell'' (Some [6]),
          node ''table'' (Some []),
          htmlNode ''<table><tr><td><table>'',
          htmlNode ''<table>'']"
  by (simp add: transformInvalidTable_def deriveTable_def deriveRow_def deriveCell_def deref_def
        nestedTablesHeap_def node_def sampleTableToHast_def htmlNode_def)

subsection \<open>The claims about the invalid table rewriter\<close>

text \<open>
  C3. The records are processed in order, each on the store the earlier ones left. A record
  without parent, or whose inner node is not among the children of its parent, leaves the
  store as it is and raises nothing; so does a whole list of such records. A record whose
  inner node is among the children of its parent replaces the first occurrence, and nothing
  else in that child sequence, by one new html node; the value of that node is the
  serialized conversion of the derived copy of the inner table, and the rest of the store
  is unchanged. The derived copy has the fields of the table and one derived row per row, which
  has the fields of the row and one derived cell per cell, which has the fields of the
  cell with the children replaced by the invalid children where the cell has them. An inner
  node of the shape of a table always has a derived copy.
\<close>

theorem invalid_table_replacement:
  "(parent r = None \<longrightarrow> transformInvalidTable toHast toHtml allow h r = Inr h)
   \<and> (parent r = Some p \<and> deref h p = Inr pn \<and> ochildren pn = Some cs \<and> inner r \<notin> set cs
         \<longrightarrow> transformInvalidTable toHast toHtml allow h r = Inr h)
   \<and> (parent r = Some p \<and> deref h p = Inr pn \<and> ochildren pn = Some cs \<and> inner r \<in> set cs
         \<and> deriveTable h (inner r) = Inr d \<longrightarrow>
         (\<exists>k<length cs. cs ! k = inner r \<and> (\<forall>j<k. cs ! j \<noteq> inner r)
            \<and> transformInvalidTable toHast toHtml allow h r =
                Inr (h[p := pn\<lparr>ochildren := Some (cs[k := length h])\<rparr>]
                     @ [htmlNode (toHtml (toHast h d allow) allow)])))
   \<and> (tableAt h (inner r) \<longrightarrow> (\<exists>d'. deriveTable h (inner r) = Inr d'))
   \<and> (deriveTable h (inner r) = Inr d \<longrightarrow>
         (\<exists>table rows. deref h (inner r) = Inr table \<and> ochildren table = Some rows
            \<and> otype d = otype table \<and> odata_type d = odata_type table
            \<and> odata_colWidths d = odata_colWidths table
            \<and> odata_invalidChildren d = odata_invalidChildren table \<and> ovalue d = ovalue table
            \<and> length (ochildren d) = length rows
            \<and> (\<forall>i<length rows. \<exists>row cells. deref h (rows ! i) = Inr row
                  \<and> ochildren row = Some cells
                  \<and> otype (ochildren d ! i) = otype row
                  \<and> odata_type (ochildren d ! i) = odata_type row
                  \<and> odata_colWidths (ochildren d ! i) = odata_colWidths row
                  \<and> odata_invalidChildren (ochildren d ! i) = odata_invalidChildren row
                  \<and> ovalue (ochildren d ! i) = ovalue row
                  \<and> length (ochildren (ochildren d ! i)) = length cells
                  \<and> (\<forall>j<length cells. \<exists>cell. deref h (cells ! j) = Inr cell
                        \<and> ochildren (ochildren d ! i) ! j =
                            cell\<lparr>ochildren := (case odata_invalidChildren cell of
                                                   Some ic \<Rightarrow> Some ic
                                                 | None \<Rightarrow> ochildren cell)\<rparr>))))
   \<and> ((\<forall>x\<in>set recs. parent x = None
          \<or> (\<exists>q qn qs. parent x = Some q \<and> deref h q = Inr qn \<and> ochildren qn = Some qs
                \<and> inner x \<notin> set qs)) \<longrightarrow>
        transformInvalidTablesToHtml toHast toHtml h recs allow = Inr h)
   \<and> transformInvalidTablesToHtml toHast toHtml h (r # recs) allow =
        (case transformInvalidTable toHast toHtml allow h r of
           Inl e \<Rightarrow> Inl e
         | Inr h' \<Rightarrow> transformInvalidTablesToHtml toHast toHtml h' recs allow)"
proof (intro conjI impI)
  assume "parent r = None"
  then show "transformInvalidTable toHast toHtml allow h r = Inr h" by (rule skip_no_parent)
next
  assume "parent r = Some p \<and> deref h p = Inr pn \<and> ochildren pn = Some cs \<and> inner r \<notin> set cs"
  then show "transformInvalidTable toHast toHtml allow h r = Inr h"
    using skip_not_found by blast
next
  assume "parent r = Some p \<and> deref h p = Inr pn \<and> ochildren pn = Some cs \<and> inner r \<in> set cs
         \<and> deriveTable h (inner r) = Inr d"
  then show "\<exists>k<length cs. cs ! k = inner r \<and> (\<forall>j<k. cs ! j \<noteq> inner r)
            \<and> transformInvalidTable toHast toHtml allow h r =
                Inr (h[p := pn\<lparr>ochildren := Some (cs[k := length h])\<rparr>]
                     @ [htmlNode (toHtml (toHast h d allow) allow)])"
    using replace_found [of r p h pn cs d toHast toHtml allow] by blast
next
  assume "tableAt h (inner r)"
  then show "\<exists>d'. deriveTable h (inner r) = Inr d'" by (rule deriveTable_total)
next
  assume "deriveTable h (inner r) = Inr d"
  then show "\<exists>table rows. deref h (inner r) = Inr table \<and> ochildren table = Some rows
            \<and> otype d = otype table \<and> odata_type d = odata_type table
            \<and> odata_colWidths d = odata_colWidths table
            \<and> odata_invalidChildren d = odata_invalidChildren table \<and> ovalue d = ovalue table
            \<and> length (ochildren d) = length rows
            \<and> (\<forall>i<length rows. \<exists>row cells. deref h (rows ! i) = Inr row
                  \<and> ochildren row = Some cells
                  \<and> otype (ochildren d ! i) = otype row
                  \<and> odata_type (ochildren d ! i) = odata_type row
                  \<and> odata_colWidths (ochildren d ! i) = odata_colWidths row
                  \<and> odata_invalidChildren (ochildren d ! i) = odata_invalidChildren row
                  \<and> ovalue (ochildren d ! i) = ovalue row
                  \<and> length (ochildren (ochildren d ! i)) = length cells
                  \<and> (\<forall>j<length cells. \<exists>cell. deref h (cells ! j) = Inr cell
                        \<and> ochildren (ochildren d ! i) ! j =
                            cell\<lparr>ochildren := (case odata_invalidChildren cell of
                                                   Some ic \<Rightarrow> Some ic
                                                 | None \<Rightarrow> ochildren cell)\<rparr>))"
    by (rule derived_copy)
next
  assume "\<forall>x\<in>set recs. parent x = None
          \<or> (\<exists>q qn qs. parent x = Some q \<and> deref h q = Inr qn \<and> ochildren qn = Some qs
                \<and> inner x \<notin> set qs)"
  then show "transformInvalidTablesToHtml toHast toHtml h recs allow = Inr h"
    by (rule skip_all)
next
  show "transformInvalidTablesToHtml toHast toHtml h (r # recs) allow =
        (case transformInvalidTable toHast toHtml allow h r of
           Inl e \<Rightarrow> Inl e
         | Inr h' \<Rightarrow> transformInvalidTablesToHtml toHast toHtml h' recs allow)"
    by simp
qed

theorem invalid_table_replacement_witness:
  "parent \<lparr>parent = Some 0, inner = 1\<rparr> = Some 0
   \<and> deref sampleHeap 0 = Inr (node ''root'' (Some [1]))
   \<and> 1 \<in> set [1::nat] \<and> tableAt sampleHeap 1
   \<and> transformInvalidTable sampleTableToHast sampleToHtml False sampleHeap
        \<lparr>parent = Some 0, inner = 1\<rparr>
       = Inr (sampleHeap[0 := node ''root'' (Some [7])]
              @ [htmlNode ''<table><tr><td><list><td><text>''])
   \<and> 3 \<notin> set [1::nat]
   \<and> transformInvalidTable sampleTableToHast sampleToHtml False sampleHeap
        \<lparr>parent = Some 0, inner = 3\<rparr> = Inr sampleHeap
   \<and> transformInvalidTable sampleTableToHast sampleToHtml False sampleHeap
        \<lparr>parent = None, inner = 1\<rparr> = Inr sampleHeap
   \<and> transformInvalidTablesToHtml sampleTableToHast sampleToHtml sampleHeap
        [\<lparr>parent = None, inner = 1\<rparr>, \<lparr>parent = Some 0, inner = 3\<rparr>] False = Inr sampleHeap"
proof -
  let ?found = "\<lparr>parent = Some 0, inner = 1\<rparr>"
  let ?absent = "\<lparr>parent = Some 0, inner = 3\<rparr>"
  let ?orphan = "\<lparr>parent = None, inner = 1\<rparr>"
  have root: "deref sampleHeap 0 = Inr (node ''root'' (Some [1]))"
    by (simp add: deref_def sampleHeap_def)
  have cs: "ochildren (node ''root'' (Some [1])) = Some [1]" by (simp add: node_def)
  have len: "length sampleHeap = 7" by (simp add: sampleHeap_def)
  have shape: "tableAt sampleHeap 1"
    by (simp add: tableAt_def rowAt_def sampleHeap_def node_def)
  from invalid_table_replacement
         [of ?found sampleTableToHast sampleToHtml False sampleHeap 0
             "node ''root'' (Some [1])" "[1]" _ "[]"]
    root cs sample_derive
  obtain k where k: "k < length [1::nat]"
    and r: "transformInvalidTable sampleTableToHast sampleToHtml False sampleHeap ?found =
              Inr (sampleHeap[0 := (node ''root'' (Some [1]))
                                     \<lparr>ochildren := Some ([1][k := length sampleHeap])\<rparr>]
                   @ [htmlNode ''<table><tr><td><list><td><text>''])"
    unfolding sample_render [symmetric] by force
  from k have "k = 0" by simp
  with r len have found: "transformInvalidTable sampleTableToHast sampleToHtml False sampleHeap
        ?found = Inr (sampleHeap[0 := node ''root'' (Some [7])]
              @ [htmlNode ''<table><tr><td><list><td><text>''])"
    by (simp add: node_def)
  from invalid_table_replacement
         [of ?absent sampleTableToHast sampleToHtml False sampleHeap 0
             "node ''root'' (Some [1])" "[1]"] root cs
  have absent: "transformInvalidTable sampleTableToHast sampleToHtml False sampleHeap ?absent
                  = Inr sampleHeap" by simp
  from invalid_table_replacement [of ?orphan sampleTableToHast sampleToHtml False sampleHeap]
  have orphan: "transformInvalidTable sampleTableToHast sampleToHtml False sampleHeap ?orphan
                  = Inr sampleHeap" by simp
  have "\<forall>x\<in>set [?orphan, ?absent]. parent x = None
          \<or> (\<exists>q qn qs. parent x = Some q \<and> deref sampleHeap q = Inr qn \<and> ochildren qn = Some qs
                \<and> inner x \<notin> set qs)"
    using root cs by auto
  with invalid_table_replacement
         [of ?orphan sampleTableToHast sampleToHtml False sampleHeap _ _ _ _ "[?orphan, ?absent]"]
  have both: "transformInvalidTablesToHtml sampleTableToHast sampleToHtml sampleHeap
        [?orphan, ?absent] False = Inr sampleHeap" by blast
  from root shape found absent orphan both show ?thesis by simp
qed

text \<open>
  C9, as stated, fails when the parent of one record is a cell of the inner table of
  another: in the store below the table 1 is the inner node of the first record, its row is
  2 and its cell is 3, and the second record has the cell 3 as parent and the table 4 in it
  as inner node. After the call the child sequence of the cell 3 is another one.
\<close>

theorem cell_of_inner_table_changed:
  "ochildren (nestedTablesHeap ! 1) = Some [2]
   \<and> ochildren (nestedTablesHeap ! 2) = Some [3]
   \<and> ochildren (nestedTablesHeap ! 3) = Some [4]
   \<and> transformInvalidTablesToHtml sampleTableToHast sampleToHtml nestedTablesHeap
        [\<lparr>parent = Some 0, inner = 1\<rparr>, \<lparr>parent = Some 3, inner = 4\<rparr>] False
      = Inr [node ''root'' (Some [5]),
             node ''table'' (Some [2]),
             node ''tableRow'' (Some [3]),
             node ''tableCell'' (Some [6]),
             node ''table'' (Some []),
             htmlNode ''<table><tr><td><table>'',
             htmlNode ''<table>'']
   \<and> ochildren ([node ''root'' (Some [5]),
                  node ''table'' (Some [2]),
                  node ''tableRow'' (Some [3]),
                  node ''tableCell'' (Some [6]),
                  node ''table'' (Some []),
                  htmlNode ''<table><tr><td><table>'',
                  htmlNode ''<table>''] ! 3) = Some [6]"
  using nested_run by (simp add: nestedTablesHeap_def node_def)

text \<open>
  C9, amended. The html is built from derived copies, and the call writes to the store only
  when it replaces a child of the parent of a record. So after the call every node that
  is not the parent of a record is what it was, in particular every inner table, row or
  cell that is not such a parent; every node of the old store keeps its type, its metadata
  and its value; a child sequence keeps its length, and each entry of it is the old one or
  a node made during the call; and the nodes made during the call are html nodes.
\<close>

theorem invalid_tables_frame:
  "transformInvalidTablesToHtml toHast toHtml h recs allow = Inr h' \<longrightarrow>
     length h \<le> length h'
     \<and> (\<forall>a<length h. Some a \<notin> parent ` set recs \<longrightarrow> h' ! a = h ! a)
     \<and> (\<forall>a<length h.
           otype (h' ! a) = otype (h ! a) \<and> odata_type (h' ! a) = odata_type (h ! a)
           \<and> odata_colWidths (h' ! a) = odata_colWidths (h ! a)
           \<and> odata_invalidChildren (h' ! a) = odata_invalidChildren (h ! a)
           \<and> ovalue (h' ! a) = ovalue (h ! a)
           \<and> childrenReplaced (length h) (ochildren (h ! a)) (ochildren (h' ! a)))
     \<and> (\<forall>a. length h \<le> a \<and> a < length h' \<longrightarrow> (\<exists>v. h' ! a = htmlNode v))"
proof
  assume "transformInvalidTablesToHtml toHast toHtml h recs allow = Inr h'"
  from heapPreserved_all [OF this]
  show "length h \<le> length h'
     \<and> (\<forall>a<length h. Some a \<notin> parent ` set recs \<longrightarrow> h' ! a = h ! a)
     \<and> (\<forall>a<length h.
           otype (h' ! a) = otype (h ! a) \<and> odata_type (h' ! a) = odata_type (h ! a)
           \<and> odata_colWidths (h' ! a) = odata_colWidths (h ! a)
           \<and> odata_invalidChildren (h' ! a) = odata_invalidChildren (h ! a)
           \<and> ovalue (h' ! a) = ovalue (h ! a)
           \<and> childrenReplaced (length h) (ochildren (h ! a)) (ochildren (h' ! a)))
     \<and> (\<forall>a. length h \<le> a \<and> a < length h' \<longrightarrow> (\<exists>v. h' ! a = htmlNode v))"
    unfolding heapPreserved_def nodePreserved_def by simp
qed

theorem invalid_tables_frame_witness:
  "transformInvalidTablesToHtml sampleTableToHast sampleToHtml sampleHeap
     [\<lparr>parent = Some 0, inner = 1\<rparr>] False
     = Inr (sampleHeap[0 := node ''root'' (Some [7])]
            @ [htmlNode ''<table><tr><td><list><td><text>''])
   \<and> (1::nat) < length sampleHeap \<and> Some 1 \<notin> parent ` set [\<lparr>parent = Some 0, inner = 1\<rparr>]
   \<and> (sampleHeap[0 := node ''root'' (Some [7])]
        @ [htmlNode ''<table><tr><td><list><td><text>'']) ! 1 = sampleHeap ! 1
   \<and> (sampleHeap[0 := node ''root'' (Some [7])]
        @ [htmlNode ''<table><tr><td><list><td><text>'']) ! 3 = sampleHeap ! 3
   \<and> childrenReplaced (length sampleHeap) (ochildren (sampleHeap ! 0))
        (ochildren ((sampleHeap[0 := node ''root'' (Some [7])]
                       @ [htmlNode ''<table><tr><td><list><td><text>'']) ! 0))"
proof -
  let ?recs = "[\<lparr>parent = Some 0, inner = 1\<rparr>]"
  let ?h' = "sampleHeap[0 := node ''root'' (Some [7])]
            @ [htmlNode ''<table><tr><td><list><td><text>'']"
  have run: "transformInvalidTablesToHtml sampleTableToHast sampleToHtml sampleHeap ?recs False
               = Inr ?h'"
    by (simp add: transformInvalidTable_def deriveTable_def deriveRow_def deriveCell_def
          deref_def sampleHeap_def node_def sampleTableToHast_def htmlNode_def)
  have len: "length sampleHeap = 7" by (simp add: sampleHeap_def)
  have np: "Some 1 \<notin> parent ` set ?recs" "Some 3 \<notin> parent ` set ?recs" by simp_all
  from invalid_tables_frame [of sampleTableToHast sampleToHtml sampleHeap ?recs False ?h'] run
  have frame: "\<forall>a<length sampleHeap. Some a \<notin> parent ` set ?recs \<longrightarrow> ?h' ! a = sampleHeap ! a"
    and repl: "\<forall>a<length sampleHeap.
           childrenReplaced (length sampleHeap) (ochildren (sampleHeap ! a)) (ochildren (?h' ! a))"
    by blast+
  from frame len np have "?h' ! 1 = sampleHeap ! 1" "?h' ! 3 = sampleHeap ! 3" by simp_all
  moreover from repl len
  have "childrenReplaced (length sampleHeap) (ochildren (sampleHeap ! 0)) (ochildren (?h' ! 0))"
    by simp
  ultimately show ?thesis using run len np by simp
qed

end
